theory Spec2Isabelle
  imports Main
begin

section \<open>Errors and the version-control provider\<close>

text \<open>
  Go errors are values. \<open>EOF\<close> is \<^verbatim>\<open>io.EOF\<close>, \<open>ErrStop\<close> is \<^verbatim>\<open>storer.ErrStop\<close>,
  \<open>ErrObjectNotFound\<close> and \<open>ErrDirectoryNotFound\<close> are the go-git sentinels the code tests
  for, \<open>Failure\<close> is any other provider failure, \<open>Wrapped\<close> is \<^verbatim>\<open>fmt.Errorf("...: %w", err)\<close>
  and \<open>NilDereference\<close> is the panic of a method call through a nil pointer.
\<close>

datatype error =
    EOF
  | ErrStop
  | ErrObjectNotFound
  | ErrDirectoryNotFound
  | NilDereference
  | Failure string
  | Wrapped string error

text \<open>\<^verbatim>\<open>errors.Is(err, target)\<close>: equality somewhere along the chain of wrapped errors.\<close>

fun errors_Is :: "error \<Rightarrow> error \<Rightarrow> bool" where
  "errors_Is (Wrapped msg e) target = (Wrapped msg e = target \<or> errors_Is e target)"
| "errors_Is e target = (e = target)"

type_synonym hash = string

text \<open>\<^verbatim>\<open>object.Commit\<close>: identified by its content hash; the message is carried for display.\<close>

record commit =
  Hash :: hash
  Message :: string

text \<open>\<^verbatim>\<open>object.Change\<close>: the entry's name before and after; the empty name stands for
  an absent side.\<close>

record change =
  FromName :: string
  ToName :: string

text \<open>
  \<^verbatim>\<open>object.CommitIter\<close> as handed out by the provider: the commits still to come, and the
  error \<^verbatim>\<open>Next\<close> returns once they are used up (\<open>EOF\<close> for a history read to its end).
\<close>

type_synonym CommitIter = "commit list \<times> error"

fun CommitIter_Next :: "CommitIter \<Rightarrow> (error + commit) \<times> CommitIter" where
  "CommitIter_Next ([], e) = (Inl e, ([], e))"
| "CommitIter_Next (c # cs, e) = (Inr c, (cs, e))"

datatype LogOrder = LogOrderDefault | LogOrderCommitterTime

record LogOptions =
  From :: hash
  Order :: LogOrder

text \<open>
  The go-git calls the code makes, taken as parameters: \<^verbatim>\<open>commit.Tree()\<close>,
  \<^verbatim>\<open>tree.Tree(path)\<close>, \<^verbatim>\<open>object.DiffTree(a, b)\<close> (\<open>None\<close> is the nil tree) and
  \<^verbatim>\<open>repo.Log(opts)\<close>. In \<^verbatim>\<open>LogOptions\<close> the field \<^verbatim>\<open>From\<close> is the commit the log starts at.
\<close>

record ('repo, 'tree) provider =
  CommitTree :: "commit \<Rightarrow> error + 'tree"
  TreeTree :: "'tree \<Rightarrow> string \<Rightarrow> error + 'tree"
  DiffTree :: "'tree \<Rightarrow> 'tree option \<Rightarrow> error + change list"
  RepoLog :: "'repo \<Rightarrow> LogOptions \<Rightarrow> error + CommitIter"

section \<open>internal/pathwalker.go: the scoped commit iterator\<close>

text \<open>
  \<^verbatim>\<open>pathFilter\<close> is a Go closure: it may write to variables it captured, so it takes and
  returns the state \<open>'s\<close> of those variables. The callback of \<^verbatim>\<open>ForEach\<close> shares that state.
\<close>

type_synonym 's pathFilter = "commit \<Rightarrow> string list \<Rightarrow> 's \<Rightarrow> bool \<times> 's"

type_synonym 's callback = "commit \<Rightarrow> 's \<Rightarrow> error option \<times> 's"

record commitPathIter =
  sourceIter :: CommitIter
  currentCommit :: "commit option"

definition NewCommitPathIterFromIter :: "CommitIter \<Rightarrow> commitPathIter" where
  "NewCommitPathIterFromIter commitIter = \<lparr>sourceIter = commitIter, currentCommit = None\<rparr>"

definition changeName :: "change \<Rightarrow> string" where
  "changeName ch = (if FromName ch = [] then ToName ch else FromName ch)"

text \<open>\<^verbatim>\<open>hasFileChange\<close>; \<open>cur\<close> is \<^verbatim>\<open>c.currentCommit\<close>, which its caller has dereferenced.\<close>

definition hasFileChange :: "'s pathFilter \<Rightarrow> commit \<Rightarrow> change list \<Rightarrow> 's \<Rightarrow> bool \<times> 's" where
  "hasFileChange pf cur changes s = pf cur (map changeName changes) s"

text \<open>
  The \<^verbatim>\<open>for\<close> loop of \<^verbatim>\<open>getNextFileCommit\<close>. \<open>parentTree\<close> is the local variable of that
  name as it stands at the top of an iteration; \<^verbatim>\<open>currentTree\<close> is recomputed in each.
\<close>

function getNextFileCommit_loop ::
  "('r, 't) provider \<Rightarrow> 's pathFilter \<Rightarrow> 't option \<Rightarrow> commitPathIter \<Rightarrow> 's
     \<Rightarrow> (error + commit) \<times> commitPathIter \<times> 's" where
  "getNextFileCommit_loop p pf parentTree c s =
    (case CommitIter_Next (sourceIter c) of (r, src') \<Rightarrow>
      let c1 = c\<lparr>sourceIter := src'\<rparr> in
      (case (case r of
               Inl parentCommitErr \<Rightarrow>
                 if parentCommitErr \<noteq> EOF then Inl parentCommitErr else Inr None
             | Inr pc \<Rightarrow> Inr (Some pc)) of
         Inl e \<Rightarrow> (Inl e, c1, s)
       | Inr parentCommit \<Rightarrow>
          (case currentCommit c1 of
             None \<Rightarrow> (Inl NilDereference, c1, s)
           | Some cur \<Rightarrow>
              (case (case parentTree of None \<Rightarrow> CommitTree p cur | Some t \<Rightarrow> Inr t) of
                 Inl currTreeErr \<Rightarrow> (Inl currTreeErr, c1, s)
               | Inr currentTree \<Rightarrow>
                  (case (case parentCommit of
                           None \<Rightarrow> Inr None
                         | Some pc \<Rightarrow>
                             (case CommitTree p pc of Inl e \<Rightarrow> Inl e | Inr t \<Rightarrow> Inr (Some t))) of
                     Inl parentTreeErr \<Rightarrow> (Inl parentTreeErr, c1, s)
                   | Inr parentTree' \<Rightarrow>
                      (case DiffTree p currentTree parentTree' of
                         Inl diffErr \<Rightarrow> (Inl diffErr, c1, s)
                       | Inr changes \<Rightarrow>
                          (case hasFileChange pf cur changes s of (found, s') \<Rightarrow>
                            let c2 = c1\<lparr>currentCommit := parentCommit\<rparr> in
                            if found then (Inr cur, c2, s')
                            else if parentCommit = None then (Inl EOF, c2, s')
                            else getNextFileCommit_loop p pf parentTree' c2 s')))))))"
  by pat_completeness auto
termination
proof (relation "measure (\<lambda>(p, pf, parentTree, c, s). length (fst (sourceIter c)))", goal_cases)
  case 1
  show ?case by simp
next
  case 2
  have "length (fst sr') < length (fst sr)"
    if "(Inr pc, sr') = CommitIter_Next sr" for pc and sr sr' :: CommitIter
    using that by (cases sr; cases "fst sr") auto
  with 2 show ?case
    by (auto split: sum.splits if_splits)
qed

declare getNextFileCommit_loop.simps [simp del]

definition getNextFileCommit ::
  "('r, 't) provider \<Rightarrow> 's pathFilter \<Rightarrow> commitPathIter \<Rightarrow> 's
     \<Rightarrow> (error + commit) \<times> commitPathIter \<times> 's" where
  "getNextFileCommit p pf c s = getNextFileCommit_loop p pf None c s"

text \<open>\<^verbatim>\<open>Next\<close>: fetch the first commit if there is no current one, then search.\<close>

definition Next ::
  "('r, 't) provider \<Rightarrow> 's pathFilter \<Rightarrow> commitPathIter \<Rightarrow> 's
     \<Rightarrow> (error + commit) \<times> commitPathIter \<times> 's" where
  "Next p pf c s =
    (case (case currentCommit c of
             None \<Rightarrow>
               (case CommitIter_Next (sourceIter c) of
                  (Inl err, src') \<Rightarrow> Inl (err, c\<lparr>sourceIter := src'\<rparr>)
                | (Inr x, src') \<Rightarrow> Inr (c\<lparr>sourceIter := src', currentCommit := Some x\<rparr>))
           | Some cur \<Rightarrow> Inr c) of
       Inl (err, c') \<Rightarrow> (Inl err, c', s)
     | Inr c' \<Rightarrow>
        (case getNextFileCommit p pf c' s of
           (Inl commitErr, c'', s') \<Rightarrow> (Inl commitErr, c''\<lparr>currentCommit := None\<rparr>, s')
         | (Inr commit, c'', s') \<Rightarrow> (Inr commit, c'', s')))"

text \<open>The loop, unfolded once on each shape of the source.\<close>

lemma loop_None:
  "isl (fst (getNextFileCommit_loop p pf pt \<lparr>sourceIter = src, currentCommit = None\<rparr> s))"
  by (subst getNextFileCommit_loop.simps) (simp split: sum.splits prod.splits)

lemma loop_Nil:
  "getNextFileCommit_loop p pf pt \<lparr>sourceIter = ([], e), currentCommit = Some cur\<rparr> s =
    (if e \<noteq> EOF then (Inl e, \<lparr>sourceIter = ([], e), currentCommit = Some cur\<rparr>, s)
     else
      (case (case pt of None \<Rightarrow> CommitTree p cur | Some t \<Rightarrow> Inr t) of
         Inl err \<Rightarrow> (Inl err, \<lparr>sourceIter = ([], e), currentCommit = Some cur\<rparr>, s)
       | Inr ct \<Rightarrow>
          (case DiffTree p ct None of
             Inl err \<Rightarrow> (Inl err, \<lparr>sourceIter = ([], e), currentCommit = Some cur\<rparr>, s)
           | Inr changes \<Rightarrow>
              (case hasFileChange pf cur changes s of (found, s') \<Rightarrow>
                 (if found then Inr cur else Inl EOF,
                  \<lparr>sourceIter = ([], e), currentCommit = None\<rparr>, s')))))"
  by (subst getNextFileCommit_loop.simps) (simp split: sum.splits prod.splits)

lemma loop_Cons:
  "getNextFileCommit_loop p pf pt \<lparr>sourceIter = (d # ds, e), currentCommit = Some cur\<rparr> s =
    (case (case pt of None \<Rightarrow> CommitTree p cur | Some t \<Rightarrow> Inr t) of
       Inl err \<Rightarrow> (Inl err, \<lparr>sourceIter = (ds, e), currentCommit = Some cur\<rparr>, s)
     | Inr ct \<Rightarrow>
        (case CommitTree p d of
           Inl err \<Rightarrow> (Inl err, \<lparr>sourceIter = (ds, e), currentCommit = Some cur\<rparr>, s)
         | Inr dt \<Rightarrow>
        (case DiffTree p ct (Some dt) of
           Inl err \<Rightarrow> (Inl err, \<lparr>sourceIter = (ds, e), currentCommit = Some cur\<rparr>, s)
         | Inr changes \<Rightarrow>
            (case hasFileChange pf cur changes s of (found, s') \<Rightarrow>
               if found then (Inr cur, \<lparr>sourceIter = (ds, e), currentCommit = Some d\<rparr>, s')
               else getNextFileCommit_loop p pf (Some dt) \<lparr>sourceIter = (ds, e), currentCommit = Some d\<rparr> s'))))"
  by (subst getNextFileCommit_loop.simps) (simp split: sum.splits prod.splits)

text \<open>What is left to visit: the commits of the source, and the current commit if any.\<close>

definition iter_size :: "commitPathIter \<Rightarrow> nat" where
  "iter_size c = length (fst (sourceIter c)) + (if currentCommit c = None then 0 else 1)"

lemma loop_size:
  "getNextFileCommit_loop p pf pt \<lparr>sourceIter = (cs, e), currentCommit = cc\<rparr> s = (Inr x, c', s')
     \<Longrightarrow> iter_size c' \<le> length cs"
proof (induction cs arbitrary: pt cc s)
  case Nil
  show ?case
  proof (cases cc)
    case None
    with Nil loop_None[of p pf pt "([], e)" s] show ?thesis by simp
  next
    case (Some cur)
    with Nil show ?thesis
      by (auto simp: loop_Nil iter_size_def split: sum.splits if_splits prod.splits)
  qed
next
  case (Cons d ds)
  show ?case
  proof (cases cc)
    case None
    with Cons.prems loop_None[of p pf pt "(d # ds, e)" s] show ?thesis by simp
  next
    case (Some cur)
    with Cons.prems show ?thesis
      by (auto simp: loop_Cons iter_size_def split: sum.splits if_splits prod.splits
          dest: Cons.IH)
  qed
qed

lemma Next_size:
  assumes "Next p pf c s = (Inr x, c', s')"
  shows "iter_size c' < iter_size c"
proof -
  obtain cs e cc where c: "c = \<lparr>sourceIter = (cs, e), currentCommit = cc\<rparr>"
    by (cases c) auto
  show ?thesis
  proof (cases cc)
    case (Some cur)
    with assms c have "getNextFileCommit_loop p pf None
        \<lparr>sourceIter = (cs, e), currentCommit = Some cur\<rparr> s = (Inr x, c', s')"
      by (auto simp: Next_def getNextFileCommit_def split: sum.splits prod.splits)
    then have "iter_size c' \<le> length cs"
      by (rule loop_size)
    moreover have "iter_size c = length cs + 1"
      using c Some by (simp add: iter_size_def)
    ultimately show ?thesis by simp
  next
    case None
    show ?thesis
    proof (cases cs)
      case Nil
      with assms c None show ?thesis by (simp add: Next_def)
    next
      case (Cons d ds)
      with assms c None have "getNextFileCommit_loop p pf None
          \<lparr>sourceIter = (ds, e), currentCommit = Some d\<rparr> s = (Inr x, c', s')"
        by (auto simp: Next_def getNextFileCommit_def split: sum.splits prod.splits)
      then have "iter_size c' \<le> length ds"
        by (rule loop_size)
      moreover have "iter_size c = length ds + 1"
        using c None Cons by (simp add: iter_size_def)
      ultimately show ?thesis by simp
    qed
  qed
qed

text \<open>\<^verbatim>\<open>ForEach\<close>: call \<^verbatim>\<open>Next\<close> until it fails; \<open>EOF\<close> and \<^verbatim>\<open>ErrStop\<close> end the loop
  without error.\<close>

function ForEach ::
  "('r, 't) provider \<Rightarrow> 's pathFilter \<Rightarrow> 's callback \<Rightarrow> commitPathIter \<Rightarrow> 's
     \<Rightarrow> error option \<times> commitPathIter \<times> 's" where
  "ForEach p pf cb c s =
    (case Next p pf c s of
       (Inl nextErr, c', s') \<Rightarrow> if nextErr = EOF then (None, c', s') else (Some nextErr, c', s')
     | (Inr commit, c', s') \<Rightarrow>
        (case cb commit s' of
           (Some err, s'') \<Rightarrow> if err = ErrStop then (None, c', s'') else (Some err, c', s'')
         | (None, s'') \<Rightarrow> ForEach p pf cb c' s''))"
  by pat_completeness auto
termination
proof (relation "measure (\<lambda>(p, pf, cb, c, s). iter_size c)", goal_cases)
  case 1
  show ?case by simp
next
  case 2
  then show ?case
    by (auto dest: Next_size[OF sym])
qed

declare ForEach.simps [simp del]

section \<open>git.go: modules, versions and the changelog\<close>

text \<open>\<^verbatim>\<open>semver.Version\<close>; \<^verbatim>\<open>Prerelease()\<close> returns the pre-release label, empty for a stable
  version.\<close>

record Version =
  Major :: nat
  Minor :: nat
  Patch :: nat
  Prerelease :: string
  Metadata :: string

text \<open>
  \<^verbatim>\<open>ModuleVersion\<close>. The code handles \<^verbatim>\<open>*ModuleVersion\<close>: the structs live in a heap, a list
  indexed by address, and a pointer is an address. Allocation appends to the heap.
\<close>

record ModuleVersion =
  Tag :: string
  Commit :: commit
  Version :: Version
  IsPrerelease :: bool
  DependencyVersions :: "(string \<times> string) list"
  Log :: "commit list"

type_synonym addr = nat

type_synonym heap = "ModuleVersion list"

record 'repo Module =
  Title :: string
  Name :: string
  Repo :: 'repo
  Versions :: "addr list"
  LatestVersion :: "addr option"
  VersionLookup :: "string \<rightharpoonup> addr"

text \<open>\<^verbatim>\<open>strings.HasPrefix\<close>.\<close>

definition HasPrefix :: "string \<Rightarrow> string \<Rightarrow> bool" where
  "HasPrefix s prefix = (take (length prefix) s = prefix)"

text \<open>\<^verbatim>\<open>VersionsAtCommit\<close> (generation.go): the versions tagged at the commit with hash \<open>ident\<close>
  (the parameter \<^verbatim>\<open>id\<close>).\<close>

fun VersionsAtCommit :: "heap \<Rightarrow> hash \<Rightarrow> addr list \<Rightarrow> addr list" where
  "VersionsAtCommit h ident [] = []"
| "VersionsAtCommit h ident (v # versions) =
     (if Hash (Commit (h ! v)) = ident then v # VersionsAtCommit h ident versions
      else VersionsAtCommit h ident versions)"

definition isPrerelease :: "ModuleVersion \<Rightarrow> bool" where
  "isPrerelease v = (Prerelease (Version v) \<noteq> [])"

text \<open>
  The first loop of \<^verbatim>\<open>getChangelog\<close>: a copy of every version whose tagged tree has the
  directory \<open>api\<close>, with an empty log. \<open>versions\<close> holds the addresses of the copies.
\<close>

fun cloneVersions ::
  "('r, 't) provider \<Rightarrow> string \<Rightarrow> addr list \<Rightarrow> addr list \<Rightarrow> heap \<Rightarrow> (error + addr list) \<times> heap" where
  "cloneVersions p api [] versions h = (Inr versions, h)"
| "cloneVersions p api (a # as) versions h =
    (let m = h ! a in
     case CommitTree p (Commit m) of
       Inl err \<Rightarrow> (Inl (Wrapped ''get commit tree'' err), h)
     | Inr tree \<Rightarrow>
        (case TreeTree p tree api of
           Inl err \<Rightarrow>
             if errors_Is err ErrDirectoryNotFound then cloneVersions p api as versions h
             else (Inl (Wrapped ''failed to list files'' err), h)
         | Inr sub \<Rightarrow> cloneVersions p api as (versions @ [length h]) (h @ [m\<lparr>Log := []\<rparr>])))"

text \<open>The variables the two closures of \<^verbatim>\<open>getChangelog\<close> capture and write.\<close>

record changelogState =
  heap :: heap
  inScope :: "string \<rightharpoonup> bool"
  accumulators :: "addr list"

text \<open>The loop of the predicate over the changed names; it stops at the first name under
  \<open>api/\<close>.\<close>

fun touchesAPI :: "string \<Rightarrow> string list \<Rightarrow> bool" where
  "touchesAPI api [] = False"
| "touchesAPI api (name # names) =
     (if HasPrefix name (api @ ''/'') then True else touchesAPI api names)"

definition changelogFilter :: "string \<Rightarrow> addr list \<Rightarrow> changelogState pathFilter" where
  "changelogFilter api versions c names s =
    (let ok = touchesAPI api names;
         s' = (if ok then s\<lparr>inScope := (inScope s)(Hash c \<mapsto> True)\<rparr> else s);
         tagCount = length (VersionsAtCommit (heap s') (Hash c) versions)
     in (ok \<or> tagCount > 0, s'))"

text \<open>The function given to \<^verbatim>\<open>slices.DeleteFunc\<close>: the loop over \<open>found\<close>.\<close>

fun closes :: "heap \<Rightarrow> addr list \<Rightarrow> addr \<Rightarrow> bool" where
  "closes h [] e = False"
| "closes h (f # found) e =
     (if \<not> isPrerelease (h ! f) \<or> isPrerelease (h ! e) then True else closes h found e)"

text \<open>\<^verbatim>\<open>slices.DeleteFunc\<close>: the elements \<open>del\<close> rejects, in order.\<close>

fun DeleteFunc :: "'a list \<Rightarrow> ('a \<Rightarrow> bool) \<Rightarrow> 'a list" where
  "DeleteFunc [] del = []"
| "DeleteFunc (x # xs) del = (if del x then DeleteFunc xs del else x # DeleteFunc xs del)"

text \<open>The loop \<^verbatim>\<open>for _, acc := range accumulators { acc.Log = append(acc.Log, commit) }\<close>.\<close>

fun appendLog :: "commit \<Rightarrow> addr list \<Rightarrow> heap \<Rightarrow> heap" where
  "appendLog commit [] h = h"
| "appendLog commit (acc # accs) h =
     appendLog commit accs (h[acc := (h ! acc)\<lparr>Log := Log (h ! acc) @ [commit]\<rparr>])"

definition inScopeAt :: "changelogState \<Rightarrow> string \<Rightarrow> bool" where
  "inScopeAt s key = (case inScope s key of None \<Rightarrow> False | Some b \<Rightarrow> b)"

definition changelogCallback :: "addr list \<Rightarrow> changelogState callback" where
  "changelogCallback versions commit s =
    (let found = VersionsAtCommit (heap s) (Hash commit) versions;
         s1 = s\<lparr>accumulators := DeleteFunc (accumulators s) (closes (heap s) found)\<rparr>;
         s2 = s1\<lparr>accumulators := accumulators s1 @ found\<rparr>;
         s3 = (if inScopeAt s2 (Hash commit)
               then s2\<lparr>heap := appendLog commit (accumulators s2) (heap s2)\<rparr>
               else s2)
     in (None, s3))"

text \<open>\<^verbatim>\<open>getChangelog\<close>: the addresses of the copies, and the heap they live in.\<close>

definition getChangelog ::
  "('r, 't) provider \<Rightarrow> 'r Module \<Rightarrow> string \<Rightarrow> heap \<Rightarrow> (error + addr list) \<times> heap" where
  "getChangelog p module api h =
    (if length (Versions module) = 0 then (Inr [], h)
     else
      (case cloneVersions p api (Versions module) [] h of
         (Inl err, h1) \<Rightarrow> (Inl err, h1)
       | (Inr versions, h1) \<Rightarrow>
          if length versions = 0 then (Inr [], h1)
          else
           (case RepoLog p (Repo module)
                   \<lparr>From = Hash (Commit (h1 ! (versions ! 0))), Order = LogOrderCommitterTime\<rparr> of
              Inl err \<Rightarrow> (Inl (Wrapped ''get git log'' err), h1)
            | Inr log \<Rightarrow>
               (case ForEach p (changelogFilter api versions) (changelogCallback versions)
                       (NewCommitPathIterFromIter log)
                       \<lparr>heap = h1, inScope = Map.empty, accumulators = []\<rparr> of
                  (Some err, filtered, s) \<Rightarrow> (Inl (Wrapped ''read git log'' err), heap s)
                | (None, filtered, s) \<Rightarrow> (Inr versions, heap s)))))"

section \<open>git.go: newModule\<close>

text \<open>\<^verbatim>\<open>plumbing.Reference\<close> of a tag: its short name and the hash it points to.\<close>

record tagRef =
  RefShort :: string
  RefHash :: hash

text \<open>
  What \<^verbatim>\<open>newModule\<close> calls outside this repository: \<^verbatim>\<open>git.Clone\<close>, \<^verbatim>\<open>repo.Tags()\<close> (the
  references its iterator yields), \<^verbatim>\<open>repo.TagObject\<close>, \<^verbatim>\<open>repo.CommitObject\<close>, the
  \<^verbatim>\<open>Commit()\<close> of an annotated tag, \<^verbatim>\<open>semver.NewVersion\<close>, \<^verbatim>\<open>Version.Compare\<close> and
  \<^verbatim>\<open>slices.SortFunc\<close>.
\<close>

record ('repo, 'tag) gitlib =
  GitClone :: "string \<Rightarrow> error + 'repo"
  RepoTags :: "'repo \<Rightarrow> error + tagRef list"
  TagObject :: "'repo \<Rightarrow> hash \<Rightarrow> error + 'tag"
  CommitObject :: "'repo \<Rightarrow> hash \<Rightarrow> error + commit"
  TagCommit :: "'tag \<Rightarrow> error + commit"
  NewVersion :: "string \<Rightarrow> error + Version"
  Compare :: "Version \<Rightarrow> Version \<Rightarrow> int"
  SortFunc :: "(addr \<Rightarrow> addr \<Rightarrow> int) \<Rightarrow> addr list \<Rightarrow> addr list"

text \<open>\<^verbatim>\<open>ModuleConfig\<close> (config.go), the fields \<^verbatim>\<open>newModule\<close> reads other than the API and
  include tables it copies.\<close>

record ModuleConfig =
  ConfigTitle :: string
  ConfigName :: string
  ConfigClone :: string

definition getCommitObjectForTag ::
  "('r, 'g) gitlib \<Rightarrow> 'r \<Rightarrow> tagRef \<Rightarrow> error + commit" where
  "getCommitObjectForTag lib repo ref =
    (case TagObject lib repo (RefHash ref) of
       Inl err \<Rightarrow>
         if errors_Is err ErrObjectNotFound then
           (case CommitObject lib repo (RefHash ref) of
              Inl err2 \<Rightarrow> Inl (Wrapped ''get tag commit'' err2)
            | Inr c \<Rightarrow> Inr c)
         else Inl (Wrapped ''get tag object'' err)
     | Inr t \<Rightarrow>
         (case TagCommit lib t of
            Inl err2 \<Rightarrow> Inl (Wrapped ''get tag commit'' err2)
          | Inr c \<Rightarrow> Inr c))"

text \<open>The function \<^verbatim>\<open>newModule\<close> gives to \<^verbatim>\<open>tagsRefs.ForEach\<close>; it writes the module and
  allocates the version.\<close>

definition trackTag ::
  "('r, 'g) gitlib \<Rightarrow> 'r \<Rightarrow> tagRef \<Rightarrow> 'r Module \<times> heap \<Rightarrow> error option \<times> 'r Module \<times> heap" where
  "trackTag lib repo ref st =
    (let name = RefShort ref in
     if \<not> HasPrefix name ''v'' then (None, st)
     else
      (case NewVersion lib name of
         Inl err \<Rightarrow> (None, st)
       | Inr version \<Rightarrow>
          (case getCommitObjectForTag lib repo ref of
             Inl err \<Rightarrow> (Some err, st)
           | Inr commit \<Rightarrow>
              (let mv = \<lparr>Tag = name, Commit = commit, Version = version,
                         IsPrerelease = (Prerelease version \<noteq> []),
                         DependencyVersions = [], Log = []\<rparr>;
                   module = fst st;
                   h = snd st
               in (None,
                   module\<lparr>Versions := Versions module @ [length h],
                          VersionLookup := (VersionLookup module)(Tag mv \<mapsto> length h)\<rparr>,
                   h @ [mv])))))"

text \<open>\<^verbatim>\<open>ReferenceIter.ForEach\<close>: stops at the first error of the callback; \<^verbatim>\<open>ErrStop\<close> is not
  an error.\<close>

fun tagsForEach ::
  "(tagRef \<Rightarrow> 's \<Rightarrow> error option \<times> 's) \<Rightarrow> tagRef list \<Rightarrow> 's \<Rightarrow> error option \<times> 's" where
  "tagsForEach cb [] st = (None, st)"
| "tagsForEach cb (ref # refs) st =
    (case cb ref st of
       (Some err, st') \<Rightarrow> (if err = ErrStop then None else Some err, st')
     | (None, st') \<Rightarrow> tagsForEach cb refs st')"

definition newModule ::
  "('r, 'g) gitlib \<Rightarrow> ModuleConfig \<Rightarrow> heap \<Rightarrow> (error + 'r Module) \<times> heap" where
  "newModule lib cfg h =
    (let url = (if ConfigClone cfg = [] then ''https://'' @ ConfigName cfg else ConfigClone cfg) in
     case GitClone lib url of
       Inl err \<Rightarrow> (Inl (Wrapped ''git clone'' err), h)
     | Inr repo \<Rightarrow>
        (let module = \<lparr>Title = ConfigTitle cfg, Name = ConfigName cfg, Repo = repo,
                       Versions = [], LatestVersion = None, VersionLookup = Map.empty\<rparr> in
         case RepoTags lib repo of
           Inl err \<Rightarrow> (Inl (Wrapped ''list tags'' err), h)
         | Inr tagsRefs \<Rightarrow>
            (case tagsForEach (trackTag lib repo) tagsRefs (module, h) of
               (Some err, module1, h1) \<Rightarrow> (Inl (Wrapped ''collect version tags'' err), h1)
             | (None, module1, h1) \<Rightarrow>
                (let sorted = SortFunc lib
                       (\<lambda>a b. Compare lib (Version (h1 ! a)) (Version (h1 ! b))) (Versions module1);
                     versions = rev sorted
                 in (Inr (module1\<lparr>Versions := versions,
                            LatestVersion :=
                              find (\<lambda>v. \<not> Prerelease (Version (h1 ! v)) \<noteq> []) versions\<rparr>),
                     h1)))))"

section \<open>A small repository\<close>

text \<open>
  A linear history of seven commits, newest first, used to run the definitions. A tree is the
  list of its files with the identity of their contents; a repository is its history.
\<close>

type_synonym demoTree = "(string \<times> nat) list"

definition cmt :: "string \<Rightarrow> commit" where
  "cmt ident = \<lparr>Hash = ident, Message = []\<rparr>"

definition demoTrees :: "(hash \<times> demoTree) list" where
  "demoTrees =
    [(''c6'', [(''api/a'', 6), (''other/x'', 4)]),
     (''c5'', [(''api/a'', 5), (''other/x'', 4)]),
     (''c4'', [(''api/a'', 3), (''other/x'', 4)]),
     (''c3'', [(''api/a'', 3), (''other/x'', 0)]),
     (''c2'', [(''api/a'', 2), (''other/x'', 0)]),
     (''c1'', [(''api/a'', 1), (''other/x'', 0)]),
     (''c0'', [(''other/x'', 0)])]"

definition demoHistory :: "commit list" where
  "demoHistory = map cmt [''c6'', ''c5'', ''c4'', ''c3'', ''c2'', ''c1'', ''c0'']"

definition demoDiff :: "demoTree \<Rightarrow> demoTree option \<Rightarrow> change list" where
  "demoDiff a b =
    (let bb = (case b of None \<Rightarrow> [] | Some t \<Rightarrow> t) in
     map (\<lambda>x. \<lparr>FromName = fst x, ToName = (if fst x \<in> set (map fst bb) then fst x else [])\<rparr>)
       (filter (\<lambda>x. x \<notin> set bb) a) @
     map (\<lambda>y. \<lparr>FromName = [], ToName = fst y\<rparr>)
       (filter (\<lambda>y. fst y \<notin> set (map fst a)) bb))"

definition demoSubtree :: "demoTree \<Rightarrow> string \<Rightarrow> error + demoTree" where
  "demoSubtree t path =
    (case filter (\<lambda>x. HasPrefix (fst x) (path @ ''/'')) t of
       [] \<Rightarrow> Inl ErrDirectoryNotFound
     | x # xs \<Rightarrow> Inr (x # xs))"

definition demoProvider :: "(commit list, demoTree) provider" where
  "demoProvider =
    \<lparr>CommitTree = (\<lambda>c. case map_of demoTrees (Hash c) of
                          None \<Rightarrow> Inl ErrObjectNotFound
                        | Some t \<Rightarrow> Inr t),
     TreeTree = demoSubtree,
     DiffTree = (\<lambda>a b. Inr (demoDiff a b)),
     RepoLog = (\<lambda>repo opts. Inr (dropWhile (\<lambda>c. Hash c \<noteq> From opts) repo, EOF))\<rparr>"

definition stable :: "nat \<Rightarrow> nat \<Rightarrow> nat \<Rightarrow> Version" where
  "stable x y z = \<lparr>Major = x, Minor = y, Patch = z, Prerelease = [], Metadata = []\<rparr>"

definition tagged :: "string \<Rightarrow> string \<Rightarrow> Version \<Rightarrow> ModuleVersion" where
  "tagged name ident v =
    \<lparr>Tag = name, Commit = cmt ident, Version = v, IsPrerelease = (Prerelease v \<noteq> []),
     DependencyVersions = [], Log = []\<rparr>"

definition demoHeap :: heap where
  "demoHeap =
    [tagged ''v1.1.0'' ''c6'' (stable 1 1 0),
     tagged ''v1.1.0-rc1'' ''c5'' ((stable 1 1 0)\<lparr>Prerelease := ''rc1''\<rparr>),
     tagged ''v1.0.0'' ''c2'' (stable 1 0 0),
     tagged ''v0.1.0'' ''c0'' (stable 0 1 0)]"

definition demoModule :: "commit list Module" where
  "demoModule =
    \<lparr>Title = ''Demo'', Name = ''example.com/demo'', Repo = demoHistory,
     Versions = [0, 1, 2, 3], LatestVersion = Some 0,
     VersionLookup = map_of [(''v1.1.0'', 0), (''v1.1.0-rc1'', 1), (''v1.0.0'', 2), (''v0.1.0'', 3)]\<rparr>"

section \<open>The iterator as a walk over the source list\<close>

text \<open>
  The changed paths of \<open>c\<close> against the next commit of the source (\<open>None\<close>: against the
  empty tree), with the failures of the provider in the order the loop meets them.
\<close>

definition changedPaths :: "('r, 't) provider \<Rightarrow> commit \<Rightarrow> commit option \<Rightarrow> error + string list" where
  "changedPaths p c nxt =
    (case CommitTree p c of
       Inl e \<Rightarrow> Inl e
     | Inr t \<Rightarrow>
        (case (case nxt of
                 None \<Rightarrow> Inr None
               | Some d \<Rightarrow> (case CommitTree p d of Inl e \<Rightarrow> Inl e | Inr dt \<Rightarrow> Inr (Some dt))) of
           Inl e \<Rightarrow> Inl e
         | Inr pt \<Rightarrow>
            (case DiffTree p t pt of
               Inl e \<Rightarrow> Inl e
             | Inr changes \<Rightarrow> Inr (map changeName changes))))"

text \<open>How \<^verbatim>\<open>ForEach\<close> ends on an error of \<^verbatim>\<open>Next\<close> and on an error of the callback.\<close>

definition loopEnd :: "error \<Rightarrow> error option" where
  "loopEnd err = (if err = EOF then None else Some err)"

definition callbackEnd :: "error \<Rightarrow> error option" where
  "callbackEnd err = (if err = ErrStop then None else Some err)"

text \<open>
  The specification of the iterator driven by \<^verbatim>\<open>ForEach\<close>, by recursion on the source: each
  commit is diffed against its successor, the predicate is asked once, and the callback runs
  on the commits the predicate accepts.
\<close>

fun scoped_run ::
  "('r, 't) provider \<Rightarrow> 's pathFilter \<Rightarrow> 's callback \<Rightarrow> commit \<Rightarrow> commit list \<Rightarrow> error \<Rightarrow> 's
     \<Rightarrow> error option \<times> 's" where
  "scoped_run p pf cb cur [] e s =
    (if e \<noteq> EOF then (Some e, s)
     else
      (case changedPaths p cur None of
         Inl err \<Rightarrow> (loopEnd err, s)
       | Inr names \<Rightarrow>
          (case pf cur names s of (found, s') \<Rightarrow>
            if found then
              (case cb cur s' of
                 (Some err, s'') \<Rightarrow> (callbackEnd err, s'')
               | (None, s'') \<Rightarrow> (None, s''))
            else (None, s'))))"
| "scoped_run p pf cb cur (d # ds) e s =
    (case changedPaths p cur (Some d) of
       Inl err \<Rightarrow> (loopEnd err, s)
     | Inr names \<Rightarrow>
        (case pf cur names s of (found, s') \<Rightarrow>
          if found then
            (case cb cur s' of
               (Some err, s'') \<Rightarrow> (callbackEnd err, s'')
             | (None, s'') \<Rightarrow> scoped_run p pf cb d ds e s'')
          else scoped_run p pf cb d ds e s'))"

definition scoped_run_all ::
  "('r, 't) provider \<Rightarrow> 's pathFilter \<Rightarrow> 's callback \<Rightarrow> CommitIter \<Rightarrow> 's \<Rightarrow> error option \<times> 's" where
  "scoped_run_all p pf cb src s =
    (case src of
       ([], e) \<Rightarrow> (loopEnd e, s)
     | (c # cs, e) \<Rightarrow> scoped_run p pf cb c cs e s)"

text \<open>The result of \<^verbatim>\<open>ForEach\<close> without the iterator it leaves behind.\<close>

definition outcome :: "error option \<times> commitPathIter \<times> 's \<Rightarrow> error option \<times> 's" where
  "outcome r = (fst r, snd (snd r))"

lemma ForEach_Some:
  "ForEach p pf cb \<lparr>sourceIter = src, currentCommit = Some cur\<rparr> s =
    (case getNextFileCommit_loop p pf None \<lparr>sourceIter = src, currentCommit = Some cur\<rparr> s of
       (Inl err, c', s') \<Rightarrow> (loopEnd err, c'\<lparr>currentCommit := None\<rparr>, s')
     | (Inr commit, c', s') \<Rightarrow>
        (case cb commit s' of
           (Some err, s'') \<Rightarrow> (callbackEnd err, c', s'')
         | (None, s'') \<Rightarrow> ForEach p pf cb c' s''))"
  by (subst ForEach.simps)
    (simp add: Next_def getNextFileCommit_def loopEnd_def callbackEnd_def
      split: sum.splits prod.splits option.splits)

lemma ForEach_None_Nil:
  "ForEach p pf cb \<lparr>sourceIter = ([], e), currentCommit = None\<rparr> s =
     (loopEnd e, \<lparr>sourceIter = ([], e), currentCommit = None\<rparr>, s)"
  by (subst ForEach.simps) (simp add: Next_def loopEnd_def)

lemma ForEach_None_Cons:
  "ForEach p pf cb \<lparr>sourceIter = (c # cs, e), currentCommit = None\<rparr> s =
     ForEach p pf cb \<lparr>sourceIter = (cs, e), currentCommit = Some c\<rparr> s"
  by (subst ForEach.simps, subst (2) ForEach.simps) (simp add: Next_def)

text \<open>What \<^verbatim>\<open>ForEach\<close> does with the result of one search of the loop.\<close>

definition resume ::
  "('r, 't) provider \<Rightarrow> 's pathFilter \<Rightarrow> 's callback \<Rightarrow> (error + commit) \<times> commitPathIter \<times> 's
     \<Rightarrow> error option \<times> 's" where
  "resume p pf cb r =
    (case r of
       (Inl err, c', s') \<Rightarrow> (loopEnd err, s')
     | (Inr commit, c', s') \<Rightarrow>
        (case cb commit s' of
           (Some err, s'') \<Rightarrow> (callbackEnd err, s'')
         | (None, s'') \<Rightarrow> outcome (ForEach p pf cb c' s'')))"

lemma outcome_ForEach_Some:
  "outcome (ForEach p pf cb \<lparr>sourceIter = src, currentCommit = Some cur\<rparr> s) =
     resume p pf cb (getNextFileCommit_loop p pf None \<lparr>sourceIter = src, currentCommit = Some cur\<rparr> s)"
  by (simp add: ForEach_Some resume_def outcome_def split: sum.splits prod.splits option.splits)

lemma loop_refines:
  "pt = None \<or> Inr (the pt) = CommitTree p cur \<Longrightarrow>
   resume p pf cb (getNextFileCommit_loop p pf pt \<lparr>sourceIter = (cs, e), currentCommit = Some cur\<rparr> s)
     = scoped_run p pf cb cur cs e s"
proof (induction cs arbitrary: pt cur s)
  case Nil
  then show ?case
    by (cases pt)
      (auto simp: loop_Nil resume_def changedPaths_def hasFileChange_def loopEnd_def
        ForEach_None_Nil outcome_def
        split: sum.splits prod.splits option.splits dest: sym)
next
  case (Cons d ds)
  have IH1: "resume p pf cb (getNextFileCommit_loop p pf (Some dt)
        \<lparr>sourceIter = (ds, e), currentCommit = Some d\<rparr> s') = scoped_run p pf cb d ds e s'"
    if "CommitTree p d = Inr dt" for dt s'
    using that by (intro Cons.IH) simp
  have IH2: "outcome (ForEach p pf cb \<lparr>sourceIter = (ds, e), currentCommit = Some d\<rparr> s')
      = scoped_run p pf cb d ds e s'" for s'
    unfolding outcome_ForEach_Some by (intro Cons.IH) simp
  from Cons.prems show ?case
    by (cases pt)
      (auto simp: loop_Cons changedPaths_def hasFileChange_def IH1 IH2 resume_def[of _ _ _ "(Inl _, _)"]
        resume_def[of _ _ _ "(Inr _, _)"]
        split: sum.splits prod.splits option.splits dest: sym)
qed

lemma ForEach_refines:
  "outcome (ForEach p pf cb (NewCommitPathIterFromIter src) s) = scoped_run_all p pf cb src s"
proof (cases src)
  case (Pair cs e)
  show ?thesis
  proof (cases cs)
    case Nil
    with Pair show ?thesis
      by (simp add: NewCommitPathIterFromIter_def ForEach_None_Nil scoped_run_all_def outcome_def)
  next
    case (Cons c cs')
    with Pair show ?thesis
      by (simp add: NewCommitPathIterFromIter_def ForEach_None_Cons scoped_run_all_def
          outcome_ForEach_Some loop_refines)
  qed
qed

section \<open>The iterator yields the matching subsequence\<close>

text \<open>
  A pure predicate \<open>P\<close> run as a path filter that records each of its evaluations, and a
  callback that records each commit it is given.
\<close>

definition observing :: "(commit \<Rightarrow> string list \<Rightarrow> bool) \<Rightarrow> (commit list \<times> (commit \<times> string list) list) pathFilter" where
  "observing P c names s = (P c names, (fst s, snd s @ [(c, names)]))"

definition collect :: "(commit list \<times> (commit \<times> string list) list) callback" where
  "collect c s = (None, (fst s @ [c], snd s))"

text \<open>Each commit of the history with its changed paths against its successor.\<close>

fun diffsVersusNext :: "('r, 't) provider \<Rightarrow> commit list \<Rightarrow> (commit \<times> (error + string list)) list" where
  "diffsVersusNext p [] = []"
| "diffsVersusNext p (c # cs) =
     (c, changedPaths p c (case cs of [] \<Rightarrow> None | d # ds \<Rightarrow> Some d)) # diffsVersusNext p cs"

definition evaluated :: "(commit \<times> string list) list \<Rightarrow> (commit \<times> (error + string list)) list" where
  "evaluated evs = map (\<lambda>(c, names). (c, Inr names)) evs"

definition accepted :: "(commit \<Rightarrow> string list \<Rightarrow> bool) \<Rightarrow> (commit \<times> string list) list \<Rightarrow> commit list" where
  "accepted P evs = map fst (filter (\<lambda>(c, names). P c names) evs)"

lemma length_diffsVersusNext [simp]: "length (diffsVersusNext p H) = length H"
  by (induction H) auto

lemma observing_pair: "observing P c names (ys, evs) = (P c names, ys, evs @ [(c, names)])"
  by (simp add: observing_def)

lemma collect_pair: "collect c (ys, evs) = (None, ys @ [c], evs)"
  by (simp add: collect_def)

lemma scoped_run_trace:
  "scoped_run p (observing P) collect cur cs e (ys, evs) = (r, ys', evs') \<Longrightarrow>
     \<exists>k \<le> Suc (length cs). \<exists>new.
        evs' = evs @ new \<and> ys' = ys @ accepted P new \<and>
        evaluated new = take k (diffsVersusNext p (cur # cs)) \<and>
        (e = EOF \<and> (\<forall>x \<in> set (diffsVersusNext p (cur # cs)). \<not> isl (snd x))
           \<longrightarrow> r = None \<and> k = Suc (length cs))"
proof (induction cs arbitrary: cur ys evs)
  case Nil
  show ?case
  proof (cases "e \<noteq> EOF \<or> isl (changedPaths p cur None)")
    case True
    with Nil have "evs' = evs @ [] \<and> ys' = ys @ accepted P [] \<and>
        evaluated [] = take 0 (diffsVersusNext p [cur])"
      by (auto simp: evaluated_def accepted_def split: sum.splits if_splits)
    with True show ?thesis by (intro exI[of _ 0] exI[of _ "[]"]) auto
  next
    case False
    then obtain names where n: "changedPaths p cur None = Inr names" "e = EOF"
      by (cases "changedPaths p cur None") auto
    with Nil have "evs' = evs @ [(cur, names)] \<and> ys' = ys @ accepted P [(cur, names)] \<and>
        evaluated [(cur, names)] = take 1 (diffsVersusNext p [cur]) \<and> r = None"
      by (auto simp: evaluated_def accepted_def observing_pair collect_pair split: if_splits)
    then show ?thesis by (intro exI[of _ 1] exI[of _ "[(cur, names)]"]) auto
  qed
next
  case (Cons d ds)
  show ?case
  proof (cases "changedPaths p cur (Some d)")
    case (Inl err)
    with Cons.prems have "evs' = evs @ [] \<and> ys' = ys @ accepted P [] \<and>
        evaluated [] = take 0 (diffsVersusNext p (cur # d # ds))"
      by (auto simp: evaluated_def accepted_def)
    with Inl show ?thesis by (intro exI[of _ 0] exI[of _ "[]"]) auto
  next
    case (Inr names)
    let ?ys1 = "if P cur names then ys @ [cur] else ys"
    from Cons.prems Inr
    have "scoped_run p (observing P) collect d ds e (?ys1, evs @ [(cur, names)]) = (r, ys', evs')"
      by (auto simp: observing_pair collect_pair split: if_splits)
    from Cons.IH[OF this] obtain k new where k: "k \<le> Suc (length ds)"
      and new: "evs' = (evs @ [(cur, names)]) @ new" "ys' = ?ys1 @ accepted P new"
        "evaluated new = take k (diffsVersusNext p (d # ds))"
        "e = EOF \<and> (\<forall>x \<in> set (diffsVersusNext p (d # ds)). \<not> isl (snd x))
           \<longrightarrow> r = None \<and> k = Suc (length ds)"
      by blast
    from new Inr have "evs' = evs @ ((cur, names) # new) \<and>
        ys' = ys @ accepted P ((cur, names) # new) \<and>
        evaluated ((cur, names) # new) = take (Suc k) (diffsVersusNext p (cur # d # ds)) \<and>
        (e = EOF \<and> (\<forall>x \<in> set (diffsVersusNext p (cur # d # ds)). \<not> isl (snd x))
           \<longrightarrow> r = None \<and> Suc k = Suc (length (d # ds)))"
      by (auto simp: evaluated_def accepted_def)
    with k show ?thesis
      by (intro exI[of _ "Suc k"] exI[of _ "(cur, names) # new"]) auto
  qed
qed

text \<open>
  C1. Over any source history \<open>H\<close> and predicate \<open>P\<close>, the commits the iterator yields are
  exactly the evaluated commits on which \<open>P\<close> holds, in order; the evaluations are a prefix of
  \<open>H\<close>, position by position, each commit paired with its changed paths against its successor
  in \<open>H\<close> (against the empty tree for the last), so no commit is evaluated twice; and when the
  source ends with \<open>EOF\<close> and no tree or diff fails, every commit of \<open>H\<close> is evaluated and the
  run ends without error.
\<close>

theorem commitPathIter_yields_matching_subsequence:
  assumes run: "outcome (ForEach p (observing P) collect (NewCommitPathIterFromIter (H, e)) ([], []))
            = (r, ys, evs)"
  shows "ys = accepted P evs \<and>
         (\<exists>k \<le> length H. evaluated evs = take k (diffsVersusNext p H)) \<and>
         (e = EOF \<and> (\<forall>x \<in> set (diffsVersusNext p H). \<not> isl (snd x))
            \<longrightarrow> r = None \<and> evaluated evs = diffsVersusNext p H)"
proof (cases H)
  case Nil
  with run show ?thesis
    by (auto simp: ForEach_refines scoped_run_all_def evaluated_def accepted_def loopEnd_def)
next
  case (Cons c cs)
  with run have "scoped_run p (observing P) collect c cs e ([], []) = (r, ys, evs)"
    by (simp add: ForEach_refines scoped_run_all_def)
  from scoped_run_trace[OF this] Cons show ?thesis
    by auto
qed

theorem commitPathIter_yields_matching_subsequence_witness:
  "outcome (ForEach demoProvider (observing (\<lambda>c. touchesAPI ''api'')) collect
       (NewCommitPathIterFromIter (demoHistory, EOF)) ([], []))
     = (None, map cmt [''c6'', ''c5'', ''c3'', ''c2'', ''c1''],
        [(cmt ''c6'', [''api/a'']), (cmt ''c5'', [''api/a'']), (cmt ''c4'', [''other/x'']),
         (cmt ''c3'', [''api/a'']), (cmt ''c2'', [''api/a'']), (cmt ''c1'', [''api/a'']),
         (cmt ''c0'', [''other/x''])]) \<and>
   map cmt [''c6'', ''c5'', ''c3'', ''c2'', ''c1''] =
     accepted (\<lambda>c. touchesAPI ''api'')
       [(cmt ''c6'', [''api/a'']), (cmt ''c5'', [''api/a'']), (cmt ''c4'', [''other/x'']),
        (cmt ''c3'', [''api/a'']), (cmt ''c2'', [''api/a'']), (cmt ''c1'', [''api/a'']),
        (cmt ''c0'', [''other/x''])] \<and>
   evaluated
       [(cmt ''c6'', [''api/a'']), (cmt ''c5'', [''api/a'']), (cmt ''c4'', [''other/x'']),
        (cmt ''c3'', [''api/a'']), (cmt ''c2'', [''api/a'']), (cmt ''c1'', [''api/a'']),
        (cmt ''c0'', [''other/x''])] = diffsVersusNext demoProvider demoHistory"
proof -
  let ?evs = "[(cmt ''c6'', [''api/a'']), (cmt ''c5'', [''api/a'']), (cmt ''c4'', [''other/x'']),
         (cmt ''c3'', [''api/a'']), (cmt ''c2'', [''api/a'']), (cmt ''c1'', [''api/a'']),
         (cmt ''c0'', [''other/x''])]"
  have run: "outcome (ForEach demoProvider (observing (\<lambda>c. touchesAPI ''api'')) collect
       (NewCommitPathIterFromIter (demoHistory, EOF)) ([], []))
     = (None, map cmt [''c6'', ''c5'', ''c3'', ''c2'', ''c1''], ?evs)"
    by code_simp
  have ok: "\<forall>x \<in> set (diffsVersusNext demoProvider demoHistory). \<not> isl (snd x)"
    by code_simp
  from commitPathIter_yields_matching_subsequence[OF run] ok run show ?thesis
    by blast
qed

section \<open>The callback of the accumulator pass\<close>

lemma VersionsAtCommit_filter:
  "VersionsAtCommit h ident versions = filter (\<lambda>v. Hash (Commit (h ! v)) = ident) versions"
  by (induction versions) auto

lemma closes_iff:
  "closes h found e \<longleftrightarrow> (\<exists>f \<in> set found. \<not> isPrerelease (h ! f) \<or> isPrerelease (h ! e))"
  by (induction found) auto

lemma DeleteFunc_filter: "DeleteFunc xs del = filter (\<lambda>x. \<not> del x) xs"
  by (induction xs) auto

lemma appendLog_length [simp]: "length (appendLog c accs h) = length h"
  by (induction accs arbitrary: h) auto

lemma appendLog_other: "e \<notin> set accs \<Longrightarrow> appendLog c accs h ! e = h ! e"
  by (induction accs arbitrary: h) auto

lemma callback_accumulators:
  "accumulators (snd (changelogCallback versions c s)) =
     DeleteFunc (accumulators s) (closes (heap s) (VersionsAtCommit (heap s) (Hash c) versions))
       @ VersionsAtCommit (heap s) (Hash c) versions"
  by (simp add: changelogCallback_def Let_def)

lemma callback_heap:
  "heap (snd (changelogCallback versions c s)) =
     (if inScopeAt s (Hash c)
      then appendLog c (accumulators (snd (changelogCallback versions c s))) (heap s)
      else heap s)"
  by (simp add: changelogCallback_def Let_def inScopeAt_def)

text \<open>
  C2. At a visited commit \<open>c\<close>, \<open>found\<close> is the tracked versions tagged at \<open>c\<close>, and the open
  windows that are closed are exactly those \<open>e\<close> for which some \<open>f\<close> in \<open>found\<close> is stable or
  \<open>e\<close> is a pre-release; a closed window that is not reopened gets nothing appended; if
  \<open>found\<close> has a stable version every open window is closed and only \<open>found\<close> stays open; if
  \<open>found\<close> is empty no window is closed.
\<close>

theorem callback_closes_windows:
  fixes versions c s
  defines "found \<equiv> VersionsAtCommit (heap s) (Hash c) versions"
    and "s' \<equiv> snd (changelogCallback versions c s)"
  defines "closed \<equiv> \<lambda>e. \<exists>f \<in> set found. \<not> isPrerelease (heap s ! f) \<or> isPrerelease (heap s ! e)"
  shows "set found = {v \<in> set versions. Hash (Commit (heap s ! v)) = Hash c} \<and>
         accumulators s' = filter (\<lambda>e. \<not> closed e) (accumulators s) @ found \<and>
         (\<forall>e \<in> set (accumulators s). closed e \<and> e \<notin> set found \<longrightarrow>
             e \<notin> set (accumulators s') \<and> heap s' ! e = heap s ! e) \<and>
         ((\<exists>f \<in> set found. \<not> isPrerelease (heap s ! f)) \<longrightarrow> accumulators s' = found) \<and>
         (found = [] \<longrightarrow> accumulators s' = accumulators s)"
proof -
  have acc: "accumulators s' = filter (\<lambda>e. \<not> closed e) (accumulators s) @ found"
    unfolding s'_def closed_def found_def
    by (simp add: callback_accumulators DeleteFunc_filter closes_iff)
  have "heap s' ! e = heap s ! e" if "e \<notin> set (accumulators s')" for e
    using that unfolding s'_def by (simp add: callback_heap appendLog_other)
  moreover have "\<not> closed e" if "found = []" for e
    using that by (simp add: closed_def)
  moreover have "closed e" if "\<exists>f \<in> set found. \<not> isPrerelease (heap s ! f)" for e
    using that by (auto simp: closed_def)
  ultimately show ?thesis
    using acc by (auto simp: found_def VersionsAtCommit_filter)
qed

theorem callback_closes_windows_witness:
  "VersionsAtCommit demoHeap ''c2'' [0, 1, 2] = [2] \<and>
   accumulators (snd (changelogCallback [0, 1, 2] (cmt ''c2'')
      \<lparr>heap = demoHeap, inScope = Map.empty, accumulators = [0, 1]\<rparr>)) = [2] \<and>
   VersionsAtCommit demoHeap ''c4'' [0, 1, 2] = [] \<and>
   accumulators (snd (changelogCallback [0, 1, 2] (cmt ''c4'')
      \<lparr>heap = demoHeap, inScope = Map.empty, accumulators = [0, 1]\<rparr>)) = [0, 1]"
proof -
  let ?s = "\<lparr>heap = demoHeap, inScope = Map.empty, accumulators = [0, 1]\<rparr>"
  have f2: "VersionsAtCommit (heap ?s) (Hash (cmt ''c2'')) [0, 1, 2] = [2]"
    by code_simp
  have st: "\<not> isPrerelease (heap ?s ! 2)"
    by code_simp
  have f4: "VersionsAtCommit (heap ?s) (Hash (cmt ''c4'')) [0, 1, 2] = []"
    by code_simp
  from callback_closes_windows[where versions = "[0, 1, 2]" and s = ?s and c = "cmt ''c2''"] f2 st
  have "accumulators (snd (changelogCallback [0, 1, 2] (cmt ''c2'') ?s)) = [2]"
    by simp
  moreover from callback_closes_windows[where versions = "[0, 1, 2]" and s = ?s and c = "cmt ''c4''"] f4
  have "accumulators (snd (changelogCallback [0, 1, 2] (cmt ''c4'') ?s)) = [0, 1]"
    by simp
  ultimately show ?thesis
    using f2 f4 by (simp add: cmt_def)
qed

section \<open>The accumulator pass\<close>

text \<open>
  What the iterator and the callback do together at one commit of the source whose changed
  names are \<open>names\<close>: the predicate runs, and the callback runs if the predicate accepts.
\<close>

definition visit :: "string \<Rightarrow> addr list \<Rightarrow> commit \<Rightarrow> string list \<Rightarrow> changelogState \<Rightarrow> changelogState" where
  "visit api versions c names s =
    (case changelogFilter api versions c names s of
       (found, s') \<Rightarrow> if found then snd (changelogCallback versions c s') else s')"

text \<open>The pass over a history given with its changed names, and the open windows (the
  accumulators) as they stand after each commit.\<close>

fun pass :: "string \<Rightarrow> addr list \<Rightarrow> (commit \<times> string list) list \<Rightarrow> changelogState \<Rightarrow> changelogState" where
  "pass api versions [] s = s"
| "pass api versions ((c, names) # D) s = pass api versions D (visit api versions c names s)"

fun windows :: "string \<Rightarrow> addr list \<Rightarrow> (commit \<times> string list) list \<Rightarrow> changelogState \<Rightarrow> addr list list" where
  "windows api versions [] s = []"
| "windows api versions ((c, names) # D) s =
     accumulators (visit api versions c names s)
       # windows api versions D (visit api versions c names s)"

text \<open>Two heaps that differ at most in the logs of their versions.\<close>

definition sameButLog :: "heap \<Rightarrow> heap \<Rightarrow> bool" where
  "sameButLog h h' \<longleftrightarrow> length h = length h' \<and> (\<forall>a. (h ! a)\<lparr>Log := []\<rparr> = (h' ! a)\<lparr>Log := []\<rparr>)"

lemma sameButLog_refl [simp]: "sameButLog h h"
  by (simp add: sameButLog_def)

lemma sameButLog_fields:
  assumes "sameButLog h h'"
  shows "Commit (h ! a) = Commit (h' ! a)" "Version (h ! a) = Version (h' ! a)"
    "Tag (h ! a) = Tag (h' ! a)" "isPrerelease (h ! a) = isPrerelease (h' ! a)"
proof -
  from assms have e: "(h ! a)\<lparr>Log := []\<rparr> = (h' ! a)\<lparr>Log := []\<rparr>"
    by (simp add: sameButLog_def)
  from arg_cong[OF e, of Commit] show "Commit (h ! a) = Commit (h' ! a)" by simp
  from arg_cong[OF e, of Version] show v: "Version (h ! a) = Version (h' ! a)" by simp
  from arg_cong[OF e, of Tag] show "Tag (h ! a) = Tag (h' ! a)" by simp
  from v show "isPrerelease (h ! a) = isPrerelease (h' ! a)" by (simp add: isPrerelease_def)
qed

lemma sameButLog_VersionsAtCommit:
  "sameButLog h h' \<Longrightarrow> VersionsAtCommit h ident vs = VersionsAtCommit h' ident vs"
  by (simp add: VersionsAtCommit_filter sameButLog_fields(1))

lemma sameButLog_closes:
  "sameButLog h h' \<Longrightarrow> closes h found e = closes h' found e"
  by (simp add: closes_iff sameButLog_fields(4))

lemma appendLog_sameButLog: "sameButLog (appendLog c accs h) h"
proof (induction accs arbitrary: h)
  case Nil
  show ?case by simp
next
  case (Cons acc accs)
  let ?h = "h[acc := (h ! acc)\<lparr>Log := Log (h ! acc) @ [c]\<rparr>]"
  have "(?h ! a)\<lparr>Log := []\<rparr> = (h ! a)\<lparr>Log := []\<rparr>" for a
  proof (cases "a = acc \<and> acc < length h")
    case True
    then show ?thesis by simp
  next
    case False
    then have "?h ! a = h ! a"
      by (cases "a = acc") (simp_all add: list_update_beyond)
    then show ?thesis by simp
  qed
  then have "sameButLog ?h h"
    by (simp add: sameButLog_def)
  with Cons.IH[of ?h] show ?case
    by (simp add: sameButLog_def)
qed

lemma sameButLog_trans: "sameButLog h h' \<Longrightarrow> sameButLog h' h'' \<Longrightarrow> sameButLog h h''"
  by (simp add: sameButLog_def)

lemma appendLog_member:
  "distinct accs \<Longrightarrow> a \<in> set accs \<Longrightarrow> a < length h \<Longrightarrow>
     appendLog c accs h ! a = (h ! a)\<lparr>Log := Log (h ! a) @ [c]\<rparr>"
proof (induction accs arbitrary: h)
  case Nil
  then show ?case by simp
next
  case (Cons acc accs)
  let ?h = "h[acc := (h ! acc)\<lparr>Log := Log (h ! acc) @ [c]\<rparr>]"
  show ?case
  proof (cases "a = acc")
    case True
    with Cons.prems have "a \<notin> set accs" by simp
    then have "appendLog c accs ?h ! a = ?h ! a"
      by (rule appendLog_other)
    with True Cons.prems show ?thesis by simp
  next
    case False
    with Cons.prems have "appendLog c accs ?h ! a = (?h ! a)\<lparr>Log := Log (?h ! a) @ [c]\<rparr>"
      by (intro Cons.IH) simp_all
    with False show ?thesis by simp
  qed
qed

lemma visit_accumulators:
  "accumulators (visit api vs c names s) =
     filter (\<lambda>e. \<not> closes (heap s) (VersionsAtCommit (heap s) (Hash c) vs) e) (accumulators s)
       @ VersionsAtCommit (heap s) (Hash c) vs"
  by (simp add: visit_def changelogFilter_def callback_accumulators DeleteFunc_filter Let_def)

lemma visit_inScope:
  "inScope (visit api vs c names s) =
     (if touchesAPI api names then (inScope s)(Hash c \<mapsto> True) else inScope s)"
  by (simp add: visit_def changelogFilter_def changelogCallback_def Let_def)

lemma visit_heap:
  "\<not> inScopeAt s (Hash c) \<Longrightarrow>
   heap (visit api vs c names s) =
     (if touchesAPI api names
      then appendLog c (accumulators (visit api vs c names s)) (heap s)
      else heap s)"
  by (simp add: visit_def changelogFilter_def changelogCallback_def Let_def inScopeAt_def
      DeleteFunc_filter)

lemma visit_sameButLog: "sameButLog (heap (visit api vs c names s)) (heap s)"
  by (simp add: visit_def changelogFilter_def changelogCallback_def Let_def appendLog_sameButLog)

lemma distinct_VersionsAtCommit: "distinct vs \<Longrightarrow> distinct (VersionsAtCommit h ident vs)"
  by (simp add: VersionsAtCommit_filter)

lemma closes_self: "e \<in> set found \<Longrightarrow> closes h found e"
  by (auto simp: closes_iff)

lemma visit_distinct:
  "distinct vs \<Longrightarrow> distinct (accumulators s) \<Longrightarrow> distinct (accumulators (visit api vs c names s))"
  by (auto simp: visit_accumulators distinct_VersionsAtCommit closes_self)

lemma visit_Log:
  assumes "\<not> inScopeAt s (Hash c)" "distinct vs" "distinct (accumulators s)" "a < length (heap s)"
  shows "Log (heap (visit api vs c names s) ! a) =
           (if touchesAPI api names \<and> a \<in> set (accumulators (visit api vs c names s))
            then Log (heap s ! a) @ [c] else Log (heap s ! a))"
proof -
  have d: "distinct (accumulators (visit api vs c names s))"
    using assms by (simp add: visit_distinct)
  show ?thesis
    using assms d by (simp add: visit_heap appendLog_member appendLog_other)
qed

lemma filter_pair_split:
  "map (fst \<circ> fst) (filter (\<lambda>((c, names), w). P names \<and> Q w) zs) =
     map fst (filter (\<lambda>(c, names). P names) (map fst (filter (\<lambda>(x, w). Q w) zs)))"
  by (induction zs) auto

lemma pass_Log:
  assumes "distinct vs" "distinct (accumulators s)" "a < length (heap s)"
    and "\<forall>x \<in> set D. \<not> inScopeAt s (Hash (fst x))"
    and "distinct (map (\<lambda>x. Hash (fst x)) D)"
  shows "Log (heap (pass api vs D s) ! a) =
           Log (heap s ! a) @
           map (fst \<circ> fst)
             (filter (\<lambda>((c, names), w). touchesAPI api names \<and> a \<in> set w)
                (zip D (windows api vs D s)))"
  using assms(2-)
proof (induction D arbitrary: s)
  case Nil
  then show ?case by simp
next
  case (Cons x D)
  obtain c names where x: "x = (c, names)" by (cases x)
  let ?s = "visit api vs c names s"
  from Cons.prems x have fresh: "\<not> inScopeAt s (Hash c)" by simp
  have len: "length (heap ?s) = length (heap s)"
    using visit_sameButLog[of api vs c names s] by (simp add: sameButLog_def)
  have "\<not> inScopeAt ?s (Hash (fst y))" if y: "y \<in> set D" for y
  proof -
    from Cons.prems(4) x have "Hash c \<notin> (\<lambda>x. Hash (fst x)) ` set D" by simp
    with y have "Hash (fst y) \<noteq> Hash c" by force
    moreover from Cons.prems(3) y have "\<not> inScopeAt s (Hash (fst y))" by simp
    ultimately show ?thesis by (simp add: inScopeAt_def visit_inScope)
  qed
  with Cons.prems x len
  have "Log (heap (pass api vs D ?s) ! a) =
           Log (heap ?s ! a) @
           map (fst \<circ> fst)
             (filter (\<lambda>((c, names), w). touchesAPI api names \<and> a \<in> set w)
                (zip D (windows api vs D ?s)))"
    by (intro Cons.IH) (simp_all add: visit_distinct assms(1))
  moreover have "Log (heap ?s ! a) =
           (if touchesAPI api names \<and> a \<in> set (accumulators ?s)
            then Log (heap s ! a) @ [c] else Log (heap s ! a))"
    using fresh assms(1) Cons.prems by (intro visit_Log) simp_all
  ultimately show ?case
    using x by simp
qed

text \<open>
  \<open>stopsAt h vs a c\<close>: the versions tagged at \<open>c\<close> close the window of \<open>a\<close>. The window of a
  version tagged at the commit with hash \<open>t\<close> is that commit and the commits after it in the
  history, up to the first one that stops it.
\<close>

definition stopsAt :: "heap \<Rightarrow> addr list \<Rightarrow> addr \<Rightarrow> commit \<Rightarrow> bool" where
  "stopsAt h vs a c = closes h (VersionsAtCommit h (Hash c) vs) a"

definition windowOf ::
  "(commit \<Rightarrow> bool) \<Rightarrow> hash \<Rightarrow> (commit \<times> string list) list \<Rightarrow> (commit \<times> string list) list" where
  "windowOf stop t D =
    (case dropWhile (\<lambda>x. Hash (fst x) \<noteq> t) D of
       [] \<Rightarrow> []
     | x # rest \<Rightarrow> x # takeWhile (\<lambda>y. \<not> stop (fst y)) rest)"

lemma visit_member:
  assumes "sameButLog (heap s) h0"
  shows "a \<in> set (accumulators (visit api vs c names s)) \<longleftrightarrow>
           (a \<in> set vs \<and> Hash (Commit (h0 ! a)) = Hash c) \<or>
           (a \<in> set (accumulators s) \<and> \<not> stopsAt h0 vs a c)"
  using sameButLog_VersionsAtCommit[OF assms] sameButLog_closes[OF assms]
  by (auto simp: visit_accumulators stopsAt_def VersionsAtCommit_filter)

lemma visit_same0: "sameButLog (heap s) h0 \<Longrightarrow> sameButLog (heap (visit api vs c names s)) h0"
  using visit_sameButLog sameButLog_trans by blast

lemma windows_never:
  assumes "sameButLog (heap s) h0" "a \<notin> set (accumulators s)"
    and "\<forall>x \<in> set D. Hash (fst x) \<noteq> Hash (Commit (h0 ! a))"
  shows "filter (\<lambda>(x, w). a \<in> set w) (zip D (windows api vs D s)) = []"
  using assms
proof (induction D arbitrary: s)
  case Nil
  then show ?case by simp
next
  case (Cons x D)
  obtain c names where x: "x = (c, names)" by (cases x)
  let ?s = "visit api vs c names s"
  from Cons.prems x have out: "a \<notin> set (accumulators ?s)"
    by (auto simp: visit_member[OF Cons.prems(1)])
  with Cons.prems have "filter (\<lambda>(x, w). a \<in> set w) (zip D (windows api vs D ?s)) = []"
    by (intro Cons.IH) (simp_all add: visit_same0)
  with out x show ?case by simp
qed

lemma windows_open:
  assumes "sameButLog (heap s) h0" "a \<in> set (accumulators s)"
    and "\<forall>x \<in> set D. Hash (fst x) \<noteq> Hash (Commit (h0 ! a))"
  shows "map fst (filter (\<lambda>(x, w). a \<in> set w) (zip D (windows api vs D s))) =
           takeWhile (\<lambda>x. \<not> stopsAt h0 vs a (fst x)) D"
  using assms
proof (induction D arbitrary: s)
  case Nil
  then show ?case by simp
next
  case (Cons x D)
  obtain c names where x: "x = (c, names)" by (cases x)
  let ?s = "visit api vs c names s"
  have same: "sameButLog (heap ?s) h0"
    using Cons.prems(1) by (rule visit_same0)
  from Cons.prems(3) have rest: "\<forall>x \<in> set D. Hash (fst x) \<noteq> Hash (Commit (h0 ! a))"
    by simp
  show ?case
  proof (cases "stopsAt h0 vs a c")
    case True
    with Cons.prems x have out: "a \<notin> set (accumulators ?s)"
      by (auto simp: visit_member[OF Cons.prems(1)])
    from windows_never[OF same out rest] out x True show ?thesis by simp
  next
    case False
    with Cons.prems x have inn: "a \<in> set (accumulators ?s)"
      by (auto simp: visit_member[OF Cons.prems(1)])
    from Cons.IH[OF same inn rest] inn x False show ?thesis by simp
  qed
qed

lemma windows_window:
  assumes "sameButLog (heap s) h0" "a \<notin> set (accumulators s)" "a \<in> set vs"
    and "distinct (map (\<lambda>x. Hash (fst x)) D)"
  shows "map fst (filter (\<lambda>(x, w). a \<in> set w) (zip D (windows api vs D s))) =
           windowOf (stopsAt h0 vs a) (Hash (Commit (h0 ! a))) D"
  using assms
proof (induction D arbitrary: s)
  case Nil
  then show ?case by (simp add: windowOf_def)
next
  case (Cons x D)
  obtain c names where x: "x = (c, names)" by (cases x)
  let ?s = "visit api vs c names s"
  have same: "sameButLog (heap ?s) h0"
    using Cons.prems(1) by (rule visit_same0)
  show ?case
  proof (cases "Hash c = Hash (Commit (h0 ! a))")
    case True
    with Cons.prems x have inn: "a \<in> set (accumulators ?s)"
      by (simp add: visit_member[OF Cons.prems(1)])
    from Cons.prems(4) x True
    have rest: "\<forall>y \<in> set D. Hash (fst y) \<noteq> Hash (Commit (h0 ! a))"
      by force
    from windows_open[OF same inn rest] inn x True show ?thesis
      by (simp add: windowOf_def)
  next
    case False
    with Cons.prems x have out: "a \<notin> set (accumulators ?s)"
      by (auto simp: visit_member[OF Cons.prems(1)])
    from Cons.prems(4) have "distinct (map (\<lambda>x. Hash (fst x)) D)" by simp
    from Cons.IH[OF same out Cons.prems(3) this] out x False show ?thesis
      by (simp add: windowOf_def)
  qed
qed

lemma evaluated_Cons:
  "diffsVersusNext p (c # cs) = evaluated D \<Longrightarrow>
     \<exists>names D'. D = (c, names) # D' \<and> diffsVersusNext p cs = evaluated D' \<and>
        changedPaths p c (case cs of [] \<Rightarrow> None | d # ds \<Rightarrow> Some d) = Inr names"
  by (cases D) (auto simp: evaluated_def)

lemma evaluated_fst: "diffsVersusNext p H = evaluated D \<Longrightarrow> map fst D = H"
proof (induction H arbitrary: D)
  case Nil
  then show ?case by (simp add: evaluated_def)
next
  case (Cons c cs)
  from evaluated_Cons[OF Cons.prems] Cons.IH show ?case by auto
qed

lemma changelogCallback_None: "fst (changelogCallback vs c s) = None"
  by (simp add: changelogCallback_def Let_def)

lemma scoped_run_pass:
  "diffsVersusNext p (cur # cs) = evaluated D \<Longrightarrow>
     scoped_run p (changelogFilter api vs) (changelogCallback vs) cur cs EOF s
       = (None, pass api vs D s)"
proof (induction cs arbitrary: cur D s)
  case Nil
  from evaluated_Cons[OF Nil] obtain names where D: "D = [(cur, names)]"
    and cp: "changedPaths p cur None = Inr names"
    by (auto simp: evaluated_def)
  obtain b s' where f: "changelogFilter api vs cur names s = (b, s')"
    by (cases "changelogFilter api vs cur names s")
  obtain s'' where cb: "changelogCallback vs cur s' = (None, s'')"
    using changelogCallback_None[of vs cur s'] by (cases "changelogCallback vs cur s'") auto
  from D cp f cb show ?case
    by (simp add: visit_def)
next
  case (Cons d ds)
  from evaluated_Cons[OF Cons.prems] obtain names D' where D: "D = (cur, names) # D'"
    and rest: "diffsVersusNext p (d # ds) = evaluated D'"
    and cp: "changedPaths p cur (Some d) = Inr names"
    by auto
  obtain b s' where f: "changelogFilter api vs cur names s = (b, s')"
    by (cases "changelogFilter api vs cur names s")
  obtain s'' where cb: "changelogCallback vs cur s' = (None, s'')"
    using changelogCallback_None[of vs cur s'] by (cases "changelogCallback vs cur s'") auto
  from D cp f cb Cons.IH[OF rest] show ?case
    by (simp add: visit_def)
qed

lemma ForEach_pass:
  assumes "diffsVersusNext p H = evaluated D"
  shows "outcome (ForEach p (changelogFilter api vs) (changelogCallback vs)
            (NewCommitPathIterFromIter (H, EOF)) s) = (None, pass api vs D s)"
proof (cases H)
  case Nil
  with assms show ?thesis
    by (simp add: ForEach_refines scoped_run_all_def loopEnd_def evaluated_def)
next
  case (Cons c cs)
  with assms show ?thesis
    by (simp add: ForEach_refines scoped_run_all_def scoped_run_pass)
qed

lemma cloneVersions_result:
  "cloneVersions p api as vs0 h = (Inr vs, h1) \<Longrightarrow>
     \<exists>new. h1 = h @ new \<and> vs = vs0 @ [length h..<length h1] \<and> (\<forall>x \<in> set new. Log x = [])"
proof (induction as arbitrary: vs0 h)
  case Nil
  then show ?case by simp
next
  case (Cons a as)
  show ?case
  proof (cases "CommitTree p (Commit (h ! a))")
    case (Inl err)
    with Cons.prems show ?thesis by simp
  next
    case (Inr tree)
    show ?thesis
    proof (cases "TreeTree p tree api")
      case (Inl err)
      with Inr Cons.prems have "cloneVersions p api as vs0 h = (Inr vs, h1)"
        by (simp split: if_splits)
      then show ?thesis by (rule Cons.IH)
    next
      case (Inr sub)
      let ?m = "(h ! a)\<lparr>Log := []\<rparr>"
      from Inr \<open>CommitTree p (Commit (h ! a)) = Inr tree\<close> Cons.prems
      have "cloneVersions p api as (vs0 @ [length h]) (h @ [?m]) = (Inr vs, h1)"
        by simp
      from Cons.IH[OF this] obtain new where new: "h1 = (h @ [?m]) @ new"
        "vs = (vs0 @ [length h]) @ [length (h @ [?m])..<length h1]" "\<forall>x \<in> set new. Log x = []"
        by blast
      from new(1) have "length h < length h1" by simp
      from upt_conv_Cons[OF this] new(2)
      have "vs = vs0 @ [length h..<length h1]" by simp
      with new(1,3) have "h1 = h @ (?m # new) \<and> vs = vs0 @ [length h..<length h1] \<and>
          (\<forall>x \<in> set (?m # new). Log x = [])"
        by simp
      then show ?thesis by blast
    qed
  qed
qed

lemma sameButLog_sym: "sameButLog h h' \<Longrightarrow> sameButLog h' h"
  by (simp add: sameButLog_def)

lemma changelogFilter_heap: "heap (snd (changelogFilter api vs c names s)) = heap s"
  by (simp add: changelogFilter_def Let_def)

lemma changelogCallback_sameButLog: "sameButLog (heap (snd (changelogCallback vs c s))) (heap s)"
  by (simp add: changelogCallback_def Let_def appendLog_sameButLog)

lemma scoped_run_sameButLog:
  "scoped_run p (changelogFilter api vs) (changelogCallback vs) cur cs e s = (r, s')
     \<Longrightarrow> sameButLog (heap s') (heap s)"
proof (induction cs arbitrary: cur s)
  case Nil
  obtain b s1 where f: "changelogFilter api vs cur (projr (changedPaths p cur None)) s = (b, s1)"
    by (cases "changelogFilter api vs cur (projr (changedPaths p cur None)) s")
  obtain s2 where cb: "changelogCallback vs cur s1 = (None, s2)"
    using changelogCallback_None[of vs cur s1] by (cases "changelogCallback vs cur s1") auto
  from changelogFilter_heap[of api vs cur "projr (changedPaths p cur None)" s] f
  have h1: "heap s1 = heap s" by simp
  from changelogCallback_sameButLog[of vs cur s1] cb h1 have "sameButLog (heap s2) (heap s)"
    by simp
  with Nil f cb h1 show ?case
    by (auto split: if_splits sum.splits)
next
  case (Cons d ds)
  obtain b s1 where f: "changelogFilter api vs cur (projr (changedPaths p cur (Some d))) s = (b, s1)"
    by (cases "changelogFilter api vs cur (projr (changedPaths p cur (Some d))) s")
  obtain s2 where cb: "changelogCallback vs cur s1 = (None, s2)"
    using changelogCallback_None[of vs cur s1] by (cases "changelogCallback vs cur s1") auto
  from changelogFilter_heap[of api vs cur "projr (changedPaths p cur (Some d))" s] f
  have h1: "heap s1 = heap s" by simp
  from changelogCallback_sameButLog[of vs cur s1] cb h1 have h2: "sameButLog (heap s2) (heap s)"
    by simp
  show ?case
  proof (cases "changedPaths p cur (Some d)")
    case (Inl err)
    with Cons.prems show ?thesis by auto
  next
    case (Inr names)
    show ?thesis
    proof (cases b)
      case True
      with Cons.prems Inr f cb
      have "scoped_run p (changelogFilter api vs) (changelogCallback vs) d ds e s2 = (r, s')"
        by simp
      from Cons.IH[OF this] h2 show ?thesis by (rule sameButLog_trans)
    next
      case False
      with Cons.prems Inr f
      have "scoped_run p (changelogFilter api vs) (changelogCallback vs) d ds e s1 = (r, s')"
        by simp
      from Cons.IH[OF this] h1 show ?thesis by simp
    qed
  qed
qed

lemma scoped_run_all_sameButLog:
  "scoped_run_all p (changelogFilter api vs) (changelogCallback vs) src s = (r, s')
     \<Longrightarrow> sameButLog (heap s') (heap s)"
  by (cases src; cases "fst src")
    (auto simp: scoped_run_all_def dest: scoped_run_sameButLog)

lemma windows_cong:
  "sameButLog (heap s) (heap t) \<Longrightarrow> accumulators s = accumulators t \<Longrightarrow>
     windows api vs D s = windows api vs D t"
proof (induction D arbitrary: s t)
  case Nil
  show ?case by simp
next
  case (Cons x D)
  obtain c names where x: "x = (c, names)" by (cases x)
  have acc: "accumulators (visit api vs c names s) = accumulators (visit api vs c names t)"
    using Cons.prems sameButLog_VersionsAtCommit[OF Cons.prems(1)]
      sameButLog_closes[OF Cons.prems(1)]
    by (simp add: visit_accumulators)
  have "sameButLog (heap (visit api vs c names s)) (heap (visit api vs c names t))"
    using visit_sameButLog[of api vs c names s] visit_sameButLog[of api vs c names t] Cons.prems(1)
    by (meson sameButLog_sym sameButLog_trans)
  from Cons.IH[OF this acc] acc x show ?case by simp
qed

lemma getChangelog_tracked:
  assumes clone: "cloneVersions p api (Versions m) [] h = (Inr vs, h1)" and ne: "vs \<noteq> []"
  shows "getChangelog p m api h =
    (case RepoLog p (Repo m)
            \<lparr>From = Hash (Commit (h1 ! (vs ! 0))), Order = LogOrderCommitterTime\<rparr> of
       Inl err \<Rightarrow> (Inl (Wrapped ''get git log'' err), h1)
     | Inr lg \<Rightarrow>
        (case outcome (ForEach p (changelogFilter api vs) (changelogCallback vs)
                (NewCommitPathIterFromIter lg)
                \<lparr>heap = h1, inScope = Map.empty, accumulators = []\<rparr>) of
           (Some err, s) \<Rightarrow> (Inl (Wrapped ''read git log'' err), heap s)
         | (None, s) \<Rightarrow> (Inr vs, heap s)))"
proof -
  from clone ne have "Versions m \<noteq> []"
    by (cases "Versions m") auto
  with clone ne show ?thesis
    unfolding getChangelog_def outcome_def
    by (simp split: sum.split prod.split option.split)
qed

lemma getChangelog_clone:
  assumes run: "getChangelog p m api h = (Inr vs, h')" and ne: "vs \<noteq> []"
  shows "\<exists>h1. cloneVersions p api (Versions m) [] h = (Inr vs, h1)"
proof -
  obtain r h1 where c: "cloneVersions p api (Versions m) [] h = (r, h1)"
    by (cases "cloneVersions p api (Versions m) [] h")
  show ?thesis
  proof (cases r)
    case (Inl err)
    with c run show ?thesis
      unfolding getChangelog_def by (simp split: if_splits)
  next
    case (Inr vs1)
    show ?thesis
    proof (cases "vs1 = []")
      case True
      with c Inr run ne show ?thesis
        unfolding getChangelog_def by (simp split: if_splits)
    next
      case False
      from c Inr have c1: "cloneVersions p api (Versions m) [] h = (Inr vs1, h1)" by simp
      from run have "vs1 = vs"
        unfolding getChangelog_tracked[OF c1 False]
        by (simp split: sum.splits prod.splits option.splits)
      with c1 show ?thesis by blast
    qed
  qed
qed

lemma getChangelog_pass:
  assumes run: "getChangelog p m api h = (Inr vs, h')"
    and ne: "vs \<noteq> []"
    and log: "RepoLog p (Repo m)
        \<lparr>From = Hash (Commit (h' ! (vs ! 0))), Order = LogOrderCommitterTime\<rparr> = Inr (H, EOF)"
    and diffs: "diffsVersusNext p H = evaluated D"
  obtains h1 where "sameButLog h' h1" "\<forall>a \<in> set vs. Log (h1 ! a) = []" "distinct vs"
    "\<forall>a \<in> set vs. a < length h1"
    "h' = heap (pass api vs D \<lparr>heap = h1, inScope = Map.empty, accumulators = []\<rparr>)"
proof -
  from getChangelog_clone[OF run ne] obtain h1
    where clone: "cloneVersions p api (Versions m) [] h = (Inr vs, h1)"
    by blast
  let ?s0 = "\<lparr>heap = h1, inScope = Map.empty, accumulators = []\<rparr>"
  let ?opts = "\<lparr>From = Hash (Commit (h1 ! (vs ! 0))), Order = LogOrderCommitterTime\<rparr>"
  obtain lg where lg: "RepoLog p (Repo m) ?opts = Inr lg"
    using run unfolding getChangelog_tracked[OF clone ne]
    by (cases "RepoLog p (Repo m) ?opts") simp_all
  obtain r s where fe: "outcome (ForEach p (changelogFilter api vs) (changelogCallback vs)
               (NewCommitPathIterFromIter lg) ?s0) = (r, s)"
    by (cases "outcome (ForEach p (changelogFilter api vs) (changelogCallback vs)
               (NewCommitPathIterFromIter lg) ?s0)")
  from run lg fe have s: "r = None" "heap s = h'"
    unfolding getChangelog_tracked[OF clone ne] by (cases r; simp)+
  from fe have "scoped_run_all p (changelogFilter api vs) (changelogCallback vs) lg ?s0 = (r, s)"
    by (simp add: ForEach_refines)
  from scoped_run_all_sameButLog[OF this] s have same: "sameButLog h' h1"
    by simp
  with lg log have "lg = (H, EOF)"
    by (simp add: sameButLog_fields(1)[OF same])
  with fe s have final: "h' = heap (pass api vs D ?s0)"
    using ForEach_pass[OF diffs, of api vs ?s0] by simp
  from cloneVersions_result[OF clone] obtain new where new: "h1 = h @ new"
    "vs = [length h..<length h1]" "\<forall>x \<in> set new. Log x = []"
    by auto
  have "Log (h1 ! a) = []" if "a \<in> set vs" for a
  proof -
    from that new have "length h \<le> a" "a - length h < length new" by auto
    with new(1,3) show ?thesis by (simp add: nth_append)
  qed
  moreover from new have "distinct vs" "\<forall>a \<in> set vs. a < length h1" by auto
  ultimately show ?thesis
    using that same final by blast
qed

lemma getChangelog_Log:
  assumes run: "getChangelog p m api h = (Inr vs, h')"
    and log: "RepoLog p (Repo m)
        \<lparr>From = Hash (Commit (h' ! (vs ! 0))), Order = LogOrderCommitterTime\<rparr> = Inr (H, EOF)"
    and diffs: "diffsVersusNext p H = evaluated D"
    and dist: "distinct (map Hash H)"
    and a: "a \<in> set vs"
  shows "Log (h' ! a) =
           map (fst \<circ> fst)
             (filter (\<lambda>((c, names), w). touchesAPI api names \<and> a \<in> set w)
                (zip D (windows api vs D \<lparr>heap = h', inScope = Map.empty, accumulators = []\<rparr>)))"
    and "Log (h' ! a) =
           map fst (filter (\<lambda>(c, names). touchesAPI api names)
             (windowOf (stopsAt h' vs a) (Hash (Commit (h' ! a))) D))"
proof -
  from a have ne: "vs \<noteq> []" by auto
  from getChangelog_pass[OF run ne log diffs] obtain h1 where
    same: "sameButLog h' h1" and empty: "\<forall>a \<in> set vs. Log (h1 ! a) = []" and dvs: "distinct vs"
    and valid: "\<forall>a \<in> set vs. a < length h1"
    and final: "h' = heap (pass api vs D \<lparr>heap = h1, inScope = Map.empty, accumulators = []\<rparr>)"
    by blast
  let ?s0 = "\<lparr>heap = h1, inScope = Map.empty, accumulators = []\<rparr>"
  let ?t0 = "\<lparr>heap = h', inScope = Map.empty, accumulators = []\<rparr>"
  have "map (\<lambda>x. Hash (fst x)) D = map Hash (map fst D)"
    by simp
  with evaluated_fst[OF diffs] dist have dD: "distinct (map (\<lambda>x. Hash (fst x)) D)"
    by simp
  have "Log (heap (pass api vs D ?s0) ! a) = Log (heap ?s0 ! a) @
      map (fst \<circ> fst) (filter (\<lambda>((c, names), w). touchesAPI api names \<and> a \<in> set w)
         (zip D (windows api vs D ?s0)))"
    using dvs valid a dD by (intro pass_Log) (simp_all add: inScopeAt_def)
  with final empty a have L: "Log (h' ! a) =
      map (fst \<circ> fst) (filter (\<lambda>((c, names), w). touchesAPI api names \<and> a \<in> set w)
         (zip D (windows api vs D ?s0)))"
    by simp
  have w: "windows api vs D ?s0 = windows api vs D ?t0"
    using same by (intro windows_cong) (simp_all add: sameButLog_sym)
  from L w show "Log (h' ! a) =
      map (fst \<circ> fst) (filter (\<lambda>((c, names), w). touchesAPI api names \<and> a \<in> set w)
         (zip D (windows api vs D ?t0)))"
    by simp
  have "map fst (filter (\<lambda>(x, w). a \<in> set w) (zip D (windows api vs D ?t0))) =
      windowOf (stopsAt h' vs a) (Hash (Commit (h' ! a))) D"
    using a dD by (intro windows_window) simp_all
  with L w show "Log (h' ! a) =
      map fst (filter (\<lambda>(c, names). touchesAPI api names)
        (windowOf (stopsAt h' vs a) (Hash (Commit (h' ! a))) D))"
    by (simp add: filter_pair_split)
qed

lemma windowOf_subset_take:
  assumes i: "i < j" "j < length D" "Hash (fst (D ! i)) = t" "stop (fst (D ! j))"
    and first: "\<forall>i' < i. Hash (fst (D ! i')) \<noteq> t"
  shows "set (windowOf stop t D) \<subseteq> set (take j D)"
proof -
  let ?P = "\<lambda>x. Hash (fst x) \<noteq> t"
  let ?Q = "\<lambda>y. \<not> stop (fst y)"
  have tw: "takeWhile ?P D = take i D"
    using i first by (intro takeWhile_eq_take_P_nth) auto
  then have "length (takeWhile ?P D) = i" using i by simp
  then have dw: "dropWhile ?P D = drop i D"
    by (simp add: dropWhile_eq_drop)
  from i have di: "drop i D = D ! i # drop (Suc i) D"
    by (simp add: Cons_nth_drop_Suc)
  let ?rest = "drop (Suc i) D"
  have "\<not> ?Q (?rest ! (j - Suc i))" "j - Suc i < length ?rest"
    using i by simp_all
  then have n: "length (takeWhile ?Q ?rest) \<le> j - Suc i"
    by (metis not_le_imp_less nth_mem set_takeWhileD takeWhile_nth)
  have "takeWhile ?Q ?rest = take (length (takeWhile ?Q ?rest)) ?rest"
    by (rule takeWhile_eq_take)
  then have "set (takeWhile ?Q ?rest) \<subseteq> set (take (j - Suc i) ?rest)"
    using n by (metis set_take_subset_set_take)
  also have "take (j - Suc i) ?rest = drop (Suc i) (take j D)"
    using i by (simp add: drop_take)
  finally have "set (takeWhile ?Q ?rest) \<subseteq> set (take j D)"
    using set_drop_subset by fastforce
  moreover have "D ! i \<in> set (take j D)"
    using i by (metis in_set_conv_nth length_take min.absorb2 nth_take less_imp_le_nat order_less_trans)
  ultimately show ?thesis
    by (simp add: windowOf_def dw di)
qed

lemma windowOf_ends:
  assumes dist: "distinct (map (\<lambda>x. Hash (fst x)) D)"
    and i: "i < j" "j \<le> k" "k < length D" "Hash (fst (D ! i)) = t" "stop (fst (D ! j))"
  shows "fst (D ! k) \<notin> fst ` set (windowOf stop t D)"
proof
  assume "fst (D ! k) \<in> fst ` set (windowOf stop t D)"
  then obtain y where y: "y \<in> set (windowOf stop t D)" "fst y = fst (D ! k)" by auto
  have first: "\<forall>i' < i. Hash (fst (D ! i')) \<noteq> t"
  proof (intro allI impI)
    fix i' assume i': "i' < i"
    with i have b: "i' < length (map (\<lambda>x. Hash (fst x)) D)" "i < length (map (\<lambda>x. Hash (fst x)) D)"
      by simp_all
    from nth_eq_iff_index_eq[OF dist b] i'
    have "map (\<lambda>x. Hash (fst x)) D ! i' \<noteq> map (\<lambda>x. Hash (fst x)) D ! i"
      by simp
    with b i show "Hash (fst (D ! i')) \<noteq> t" by simp
  qed
  from i have "j < length D" by simp
  from i(1) this i(4,5) first have "set (windowOf stop t D) \<subseteq> set (take j D)"
    by (rule windowOf_subset_take)
  with y have "y \<in> set (take j D)" by blast
  then obtain l where l: "l < j" "l < length D" "y = D ! l"
    by (auto simp: in_set_conv_nth)
  with i have b: "l < length (map (\<lambda>x. Hash (fst x)) D)" "k < length (map (\<lambda>x. Hash (fst x)) D)"
    by simp_all
  from nth_eq_iff_index_eq[OF dist b] l i
  have "map (\<lambda>x. Hash (fst x)) D ! l \<noteq> map (\<lambda>x. Hash (fst x)) D ! k"
    by simp
  with b l y show False by simp
qed

subsection \<open>The changelog of the small repository\<close>

definition demoChanges :: "(commit \<times> string list) list" where
  "demoChanges =
    [(cmt ''c6'', [''api/a'']), (cmt ''c5'', [''api/a'']), (cmt ''c4'', [''other/x'']),
     (cmt ''c3'', [''api/a'']), (cmt ''c2'', [''api/a'']), (cmt ''c1'', [''api/a'']),
     (cmt ''c0'', [''other/x''])]"

definition demoChangelog :: heap where
  "demoChangelog = demoHeap @
    [(tagged ''v1.1.0'' ''c6'' (stable 1 1 0))\<lparr>Log := map cmt [''c6'', ''c5'', ''c3'']\<rparr>,
     (tagged ''v1.1.0-rc1'' ''c5'' ((stable 1 1 0)\<lparr>Prerelease := ''rc1''\<rparr>))
        \<lparr>Log := map cmt [''c5'', ''c3'']\<rparr>,
     (tagged ''v1.0.0'' ''c2'' (stable 1 0 0))\<lparr>Log := map cmt [''c2'', ''c1'']\<rparr>]"

lemma demo_diffs: "diffsVersusNext demoProvider demoHistory = evaluated demoChanges"
  by code_simp

lemma demo_distinct: "distinct (map Hash demoHistory)"
  by code_simp

lemma demo_clone:
  "cloneVersions demoProvider ''api'' (Versions demoModule) [] demoHeap =
     (Inr [4, 5, 6], demoHeap @ map (\<lambda>a. (demoHeap ! a)\<lparr>Log := []\<rparr>) [0, 1, 2])"
  by code_simp

lemma demo_pass:
  "heap (pass ''api'' [4, 5, 6] demoChanges
      \<lparr>heap = demoHeap @ map (\<lambda>a. (demoHeap ! a)\<lparr>Log := []\<rparr>) [0, 1, 2],
       inScope = Map.empty, accumulators = []\<rparr>) = demoChangelog"
  by code_simp

lemma demo_run:
  "getChangelog demoProvider demoModule ''api'' demoHeap = (Inr [4, 5, 6], demoChangelog)"
proof -
  let ?h1 = "demoHeap @ map (\<lambda>a. (demoHeap ! a)\<lparr>Log := []\<rparr>) [0, 1, 2]"
  let ?s0 = "\<lparr>heap = ?h1, inScope = Map.empty, accumulators = []\<rparr>"
  have ne: "[4, 5, 6::nat] \<noteq> []" by simp
  have lg: "RepoLog demoProvider (Repo demoModule)
      \<lparr>From = Hash (Commit (?h1 ! ([4, 5, 6] ! 0))), Order = LogOrderCommitterTime\<rparr>
      = Inr (demoHistory, EOF)"
    by code_simp
  have "outcome (ForEach demoProvider (changelogFilter ''api'' [4, 5, 6])
      (changelogCallback [4, 5, 6]) (NewCommitPathIterFromIter (demoHistory, EOF)) ?s0)
      = (None, pass ''api'' [4, 5, 6] demoChanges ?s0)"
    using demo_diffs by (rule ForEach_pass)
  with lg demo_pass show ?thesis
    unfolding getChangelog_tracked[OF demo_clone ne] by simp
qed

lemma demo_log:
  "RepoLog demoProvider (Repo demoModule)
     \<lparr>From = Hash (Commit (demoChangelog ! ([4, 5, 6] ! 0))), Order = LogOrderCommitterTime\<rparr>
   = Inr (demoHistory, EOF)"
  by code_simp

lemma stopsAt_prerelease:
  "isPrerelease (h ! a) \<Longrightarrow> stopsAt h vs a = (\<lambda>c. VersionsAtCommit h (Hash c) vs \<noteq> [])"
  by (simp add: stopsAt_def closes_iff fun_eq_iff Bex_def ex_in_conv)

lemma stopsAt_stable:
  "\<not> isPrerelease (h ! a) \<Longrightarrow>
     stopsAt h vs a = (\<lambda>c. \<exists>f \<in> set (VersionsAtCommit h (Hash c) vs). \<not> isPrerelease (h ! f))"
  by (auto simp: stopsAt_def closes_iff fun_eq_iff)

lemma Log_outside_window:
  assumes L: "Log v = map fst (filter R (windowOf stop t D))"
    and H: "map fst D = H"
    and dist: "distinct (map Hash H)"
    and i: "i < j" "j \<le> k" "k < length H" "Hash (H ! i) = t" "stop (H ! j)"
  shows "H ! k \<notin> set (Log v)"
proof -
  from H have len: "length D = length H" by (metis length_map)
  from H i have nth: "fst (D ! i) = H ! i" "fst (D ! j) = H ! j" "fst (D ! k) = H ! k"
    using len by (metis nth_map order_less_le_trans less_imp_le_nat order_le_less_trans)+
  have "map (\<lambda>x. Hash (fst x)) D = map Hash (map fst D)" by simp
  with H dist have dD: "distinct (map (\<lambda>x. Hash (fst x)) D)" by simp
  from i len nth have "fst (D ! k) \<notin> fst ` set (windowOf stop t D)"
    by (intro windowOf_ends[OF dD, of i j k]) simp_all
  with L nth show ?thesis by auto
qed

text \<open>
  C4. When getChangelog succeeds over a history \<open>H\<close> of distinct commits read to its end, the
  list of a pre-release version \<open>a\<close> is exactly the commits touching the API from its tag
  commit up to, and not including, the next commit of \<open>H\<close> that carries a tag of any tracked
  version; so no commit at or after that next tag is in the list.
\<close>

theorem prerelease_window_ends_at_next_tag:
  assumes run: "getChangelog p m api h = (Inr vs, h')"
    and log: "RepoLog p (Repo m)
        \<lparr>From = Hash (Commit (h' ! (vs ! 0))), Order = LogOrderCommitterTime\<rparr> = Inr (H, EOF)"
    and diffs: "diffsVersusNext p H = evaluated D"
    and dist: "distinct (map Hash H)"
    and a: "a \<in> set vs"
    and pre: "isPrerelease (h' ! a)"
  shows "Log (h' ! a) =
           map fst (filter (\<lambda>(c, names). touchesAPI api names)
             (windowOf (\<lambda>c. VersionsAtCommit h' (Hash c) vs \<noteq> []) (Hash (Commit (h' ! a))) D)) \<and>
         (\<forall>i j k. i < j \<and> j \<le> k \<and> k < length H \<and> Hash (H ! i) = Hash (Commit (h' ! a)) \<and>
            VersionsAtCommit h' (Hash (H ! j)) vs \<noteq> [] \<longrightarrow> H ! k \<notin> set (Log (h' ! a)))"
proof -
  have L: "Log (h' ! a) =
           map fst (filter (\<lambda>(c, names). touchesAPI api names)
             (windowOf (\<lambda>c. VersionsAtCommit h' (Hash c) vs \<noteq> []) (Hash (Commit (h' ! a))) D))"
    using getChangelog_Log(2)[OF run log diffs dist a] by (simp add: stopsAt_prerelease[OF pre])
  from Log_outside_window[OF L evaluated_fst[OF diffs] dist] L show ?thesis
    by blast
qed

theorem prerelease_window_ends_at_next_tag_witness:
  "getChangelog demoProvider demoModule ''api'' demoHeap = (Inr [4, 5, 6], demoChangelog) \<and>
   isPrerelease (demoChangelog ! 5) \<and>
   Log (demoChangelog ! 5) =
     map fst (filter (\<lambda>(c, names). touchesAPI ''api'' names)
       (windowOf (\<lambda>c. VersionsAtCommit demoChangelog (Hash c) [4, 5, 6] \<noteq> [])
          (Hash (Commit (demoChangelog ! 5))) demoChanges)) \<and>
   Log (demoChangelog ! 5) = map cmt [''c5'', ''c3''] \<and>
   demoHistory ! 4 \<notin> set (Log (demoChangelog ! 5))"
proof -
  have a: "5 \<in> set [4, 5, 6::nat]" by simp
  have pre: "isPrerelease (demoChangelog ! 5)" by code_simp
  have ix: "(1::nat) < 4 \<and> (4::nat) \<le> 4 \<and> 4 < length demoHistory \<and>
      Hash (demoHistory ! 1) = Hash (Commit (demoChangelog ! 5)) \<and>
      VersionsAtCommit demoChangelog (Hash (demoHistory ! 4)) [4, 5, 6] \<noteq> []"
    by code_simp
  have l: "Log (demoChangelog ! 5) = map cmt [''c5'', ''c3'']" by code_simp
  from prerelease_window_ends_at_next_tag[OF demo_run demo_log demo_diffs demo_distinct a pre] ix
  have "Log (demoChangelog ! 5) =
     map fst (filter (\<lambda>(c, names). touchesAPI ''api'' names)
       (windowOf (\<lambda>c. VersionsAtCommit demoChangelog (Hash c) [4, 5, 6] \<noteq> [])
          (Hash (Commit (demoChangelog ! 5))) demoChanges))"
    and "demoHistory ! 4 \<notin> set (Log (demoChangelog ! 5))"
    by blast+
  with demo_run pre l show ?thesis by blast
qed

text \<open>
  C3, as amended. When getChangelog succeeds over a history \<open>H\<close> of distinct commits read to
  its end, the list of a stable version \<open>a\<close> is exactly the commits touching the API from its
  tag commit up to, and not including, the next commit of \<open>H\<close> that carries the tag of a
  stable tracked version; a pre-release tag in between does not end it.
\<close>

theorem stable_window_ends_at_next_stable_tag:
  assumes run: "getChangelog p m api h = (Inr vs, h')"
    and log: "RepoLog p (Repo m)
        \<lparr>From = Hash (Commit (h' ! (vs ! 0))), Order = LogOrderCommitterTime\<rparr> = Inr (H, EOF)"
    and diffs: "diffsVersusNext p H = evaluated D"
    and dist: "distinct (map Hash H)"
    and a: "a \<in> set vs"
    and stable: "\<not> isPrerelease (h' ! a)"
  shows "Log (h' ! a) =
           map fst (filter (\<lambda>(c, names). touchesAPI api names)
             (windowOf (\<lambda>c. \<exists>f \<in> set (VersionsAtCommit h' (Hash c) vs). \<not> isPrerelease (h' ! f))
                (Hash (Commit (h' ! a))) D)) \<and>
         (\<forall>i j k. i < j \<and> j \<le> k \<and> k < length H \<and> Hash (H ! i) = Hash (Commit (h' ! a)) \<and>
            (\<exists>f \<in> set (VersionsAtCommit h' (Hash (H ! j)) vs). \<not> isPrerelease (h' ! f))
            \<longrightarrow> H ! k \<notin> set (Log (h' ! a)))"
proof -
  have L: "Log (h' ! a) =
           map fst (filter (\<lambda>(c, names). touchesAPI api names)
             (windowOf (\<lambda>c. \<exists>f \<in> set (VersionsAtCommit h' (Hash c) vs). \<not> isPrerelease (h' ! f))
                (Hash (Commit (h' ! a))) D))"
    using getChangelog_Log(2)[OF run log diffs dist a] by (simp add: stopsAt_stable[OF stable])
  from Log_outside_window[OF L evaluated_fst[OF diffs] dist] L show ?thesis
    by blast
qed

theorem stable_window_ends_at_next_stable_tag_witness:
  "getChangelog demoProvider demoModule ''api'' demoHeap = (Inr [4, 5, 6], demoChangelog) \<and>
   \<not> isPrerelease (demoChangelog ! 4) \<and>
   Log (demoChangelog ! 4) =
     map fst (filter (\<lambda>(c, names). touchesAPI ''api'' names)
       (windowOf (\<lambda>c. \<exists>f \<in> set (VersionsAtCommit demoChangelog (Hash c) [4, 5, 6]).
                      \<not> isPrerelease (demoChangelog ! f))
          (Hash (Commit (demoChangelog ! 4))) demoChanges)) \<and>
   Log (demoChangelog ! 4) = map cmt [''c6'', ''c5'', ''c3''] \<and>
   demoHistory ! 4 \<notin> set (Log (demoChangelog ! 4))"
proof -
  have a: "4 \<in> set [4, 5, 6::nat]" by simp
  have st: "\<not> isPrerelease (demoChangelog ! 4)" by code_simp
  have ix: "(0::nat) < 4 \<and> (4::nat) \<le> 4 \<and> 4 < length demoHistory \<and>
      Hash (demoHistory ! 0) = Hash (Commit (demoChangelog ! 4)) \<and>
      (\<exists>f \<in> set (VersionsAtCommit demoChangelog (Hash (demoHistory ! 4)) [4, 5, 6]).
          \<not> isPrerelease (demoChangelog ! f))"
    by code_simp
  have l: "Log (demoChangelog ! 4) = map cmt [''c6'', ''c5'', ''c3'']" by code_simp
  from stable_window_ends_at_next_stable_tag[OF demo_run demo_log demo_diffs demo_distinct a st] ix
  have "Log (demoChangelog ! 4) =
     map fst (filter (\<lambda>(c, names). touchesAPI ''api'' names)
       (windowOf (\<lambda>c. \<exists>f \<in> set (VersionsAtCommit demoChangelog (Hash c) [4, 5, 6]).
                      \<not> isPrerelease (demoChangelog ! f))
          (Hash (Commit (demoChangelog ! 4))) demoChanges))"
    and "demoHistory ! 4 \<notin> set (Log (demoChangelog ! 4))"
    by blast+
  with demo_run st l show ?thesis by blast
qed

text \<open>
  C3, as stated, fails: in the small repository the stable version \<open>v1.1.0\<close> is tagged at
  the first commit of the history, the next commit carries the pre-release tag
  \<open>v1.1.0-rc1\<close>, and the fourth commit, older than that tag, is in the list of \<open>v1.1.0\<close>.
\<close>

theorem stable_window_passes_prerelease_tag:
  "getChangelog demoProvider demoModule ''api'' demoHeap = (Inr [4, 5, 6], demoChangelog) \<and>
   \<not> isPrerelease (demoChangelog ! 4) \<and>
   Hash (demoHistory ! 0) = Hash (Commit (demoChangelog ! 4)) \<and>
   VersionsAtCommit demoChangelog (Hash (demoHistory ! 1)) [4, 5, 6] = [5] \<and>
   isPrerelease (demoChangelog ! 5) \<and>
   demoHistory ! 3 \<in> set (Log (demoChangelog ! 4))"
proof -
  have "\<not> isPrerelease (demoChangelog ! 4) \<and>
   Hash (demoHistory ! 0) = Hash (Commit (demoChangelog ! 4)) \<and>
   VersionsAtCommit demoChangelog (Hash (demoHistory ! 1)) [4, 5, 6] = [5] \<and>
   isPrerelease (demoChangelog ! 5) \<and>
   demoHistory ! 3 \<in> set (Log (demoChangelog ! 4))"
    by code_simp
  with demo_run show ?thesis by blast
qed

lemma windows_length [simp]: "length (windows api vs D s) = length D"
  by (induction D arbitrary: s) auto

lemma windows_found:
  "i < length D \<Longrightarrow>
     set (VersionsAtCommit (heap s) (Hash (fst (D ! i))) vs) \<subseteq> set (windows api vs D s ! i)"
proof (induction D arbitrary: s i)
  case Nil
  then show ?case by simp
next
  case (Cons x D)
  obtain c names where x: "x = (c, names)" by (cases x)
  show ?case
  proof (cases i)
    case 0
    with x show ?thesis by (simp add: visit_accumulators)
  next
    case (Suc n)
    with Cons.prems have "n < length D" by simp
    from Cons.IH[OF this, of "visit api vs c names s"] Suc x
      sameButLog_VersionsAtCommit[OF visit_sameButLog[of api vs c names s]]
    show ?thesis by simp
  qed
qed

lemma windowOf_cases:
  obtains "windowOf stop t D = []"
  | x rest where "dropWhile (\<lambda>x. Hash (fst x) \<noteq> t) D = x # rest"
      "windowOf stop t D = x # takeWhile (\<lambda>y. \<not> stop (fst y)) rest"
  unfolding windowOf_def
  by (cases "dropWhile (\<lambda>x. Hash (fst x) \<noteq> t) D") (simp_all del: dropWhile_eq_Nil_conv)

lemma set_windowOf: "set (windowOf stop t D) \<subseteq> set D"
proof (cases rule: windowOf_cases[of stop t D])
  case 1
  then show ?thesis by simp
next
  case (2 x rest)
  have "set (x # takeWhile (\<lambda>y. \<not> stop (fst y)) rest) \<subseteq> set (x # rest)"
    by (auto dest: set_takeWhileD)
  also have "\<dots> \<subseteq> set D"
    unfolding 2(1)[symmetric] by (auto dest: set_dropWhileD)
  finally show ?thesis using 2(2) by simp
qed

lemma distinct_windowOf:
  assumes "distinct D"
  shows "distinct (windowOf stop t D)"
proof (cases rule: windowOf_cases[of stop t D])
  case 1
  then show ?thesis by simp
next
  case (2 x rest)
  from assms have "distinct (dropWhile (\<lambda>x. Hash (fst x) \<noteq> t) D)"
    by (rule distinct_dropWhile)
  with 2(1) have "x \<notin> set rest" "distinct rest" by simp_all
  then have "distinct (x # takeWhile (\<lambda>y. \<not> stop (fst y)) rest)"
    by (auto dest: set_takeWhileD)
  with 2(2) show ?thesis by simp
qed

lemma distinct_window_log:
  assumes "distinct (map fst D)"
  shows "distinct (map fst (filter R (windowOf stop t D)))"
proof -
  from assms have d: "distinct D" and inj: "inj_on fst (set D)"
    by (simp_all add: distinct_map)
  have "set (filter R (windowOf stop t D)) \<subseteq> set D"
    using set_windowOf[of stop t D] by auto
  with inj have "inj_on fst (set (filter R (windowOf stop t D)))"
    by (rule inj_on_subset)
  moreover have "distinct (filter R (windowOf stop t D))"
    using d by (simp add: distinct_windowOf)
  ultimately show ?thesis by (simp add: distinct_map)
qed

text \<open>
  C5. In a pass of getChangelog that succeeds over a history of distinct commits read to
  its end, with \<open>W\<close> the open windows as they stand after each commit (after the windows
  closed and opened at that commit): the list of a version \<open>a\<close> is exactly the commits that
  touch the API and after which \<open>a\<close> is in \<open>W\<close>, in order; no commit is in it twice; and
  every version tagged at a commit is in \<open>W\<close> at that commit, whether or not the commit
  touches the API.
\<close>

theorem commits_appended_once_while_open:
  fixes p :: "('r, 't) provider" and m :: "'r Module"
  assumes run: "getChangelog p m api h = (Inr vs, h')"
    and log: "RepoLog p (Repo m)
        \<lparr>From = Hash (Commit (h' ! (vs ! 0))), Order = LogOrderCommitterTime\<rparr> = Inr (H, EOF)"
    and diffs: "diffsVersusNext p H = evaluated D"
    and dist: "distinct (map Hash H)"
    and a: "a \<in> set vs"
  defines "W \<equiv> windows api vs D \<lparr>heap = h', inScope = Map.empty, accumulators = []\<rparr>"
  shows "Log (h' ! a) =
           map (fst \<circ> fst)
             (filter (\<lambda>((c, names), w). touchesAPI api names \<and> a \<in> set w) (zip D W)) \<and>
         distinct (Log (h' ! a)) \<and>
         length W = length D \<and>
         (\<forall>i < length D. set (VersionsAtCommit h' (Hash (fst (D ! i))) vs) \<subseteq> set (W ! i))"
proof -
  from dist have "distinct H"
    by (simp add: distinct_map)
  with evaluated_fst[OF diffs] have "distinct (map fst D)" by simp
  then have "distinct (Log (h' ! a))"
    unfolding getChangelog_Log(2)[OF run log diffs dist a] by (rule distinct_window_log)
  moreover have "\<forall>i < length D. set (VersionsAtCommit h' (Hash (fst (D ! i))) vs) \<subseteq> set (W ! i)"
    unfolding W_def using windows_found[of _ D "\<lparr>heap = h', inScope = Map.empty, accumulators = []\<rparr>" vs api]
    by simp
  ultimately show ?thesis
    using getChangelog_Log(1)[OF run log diffs dist a] by (simp add: W_def)
qed

theorem commits_appended_once_while_open_witness:
  "windows ''api'' [4, 5, 6] demoChanges
      \<lparr>heap = demoChangelog, inScope = Map.empty, accumulators = []\<rparr>
     = [[4], [4, 5], [4, 5], [4, 5], [6], [6], [6]] \<and>
   Log (demoChangelog ! 4) =
     map (fst \<circ> fst)
       (filter (\<lambda>((c, names), w). touchesAPI ''api'' names \<and> (4::nat) \<in> set w)
          (zip demoChanges [[4], [4, 5], [4, 5], [4, 5], [6], [6], [6]])) \<and>
   Log (demoChangelog ! 4) = map cmt [''c6'', ''c5'', ''c3''] \<and>
   distinct (Log (demoChangelog ! 4))"
proof -
  have a: "4 \<in> set [4, 5, 6::nat]" by simp
  have w: "windows ''api'' [4, 5, 6] demoChanges
      \<lparr>heap = demoChangelog, inScope = Map.empty, accumulators = []\<rparr>
     = [[4], [4, 5], [4, 5], [4, 5], [6], [6], [6]]"
    by code_simp
  have l: "Log (demoChangelog ! 4) = map cmt [''c6'', ''c5'', ''c3'']" by code_simp
  from commits_appended_once_while_open[OF demo_run demo_log demo_diffs demo_distinct a]
  have c: "Log (demoChangelog ! 4) =
     map (fst \<circ> fst)
       (filter (\<lambda>((c, names), w). touchesAPI ''api'' names \<and> (4::nat) \<in> set w)
          (zip demoChanges (windows ''api'' [4, 5, 6] demoChanges
      \<lparr>heap = demoChangelog, inScope = Map.empty, accumulators = []\<rparr>)))"
    and d: "distinct (Log (demoChangelog ! 4))"
    by blast+
  show ?thesis
    by (intro conjI) (rule w, rule c[unfolded w], rule l, rule d)
qed

section \<open>Versions without the API directory\<close>

text \<open>
  \<open>hasAPI\<close>: the tagged tree of the version has the directory \<open>api\<close>. \<open>lacksAPI\<close>: its
  lookup fails with \<^verbatim>\<open>ErrDirectoryNotFound\<close>. Any other failure is neither.
\<close>

definition hasAPI :: "('r, 't) provider \<Rightarrow> string \<Rightarrow> ModuleVersion \<Rightarrow> bool" where
  "hasAPI p api v =
    (case CommitTree p (Commit v) of
       Inl err \<Rightarrow> False
     | Inr tree \<Rightarrow> (case TreeTree p tree api of Inl err \<Rightarrow> False | Inr sub \<Rightarrow> True))"

definition lacksAPI :: "('r, 't) provider \<Rightarrow> string \<Rightarrow> ModuleVersion \<Rightarrow> bool" where
  "lacksAPI p api v =
    (case CommitTree p (Commit v) of
       Inl err \<Rightarrow> False
     | Inr tree \<Rightarrow>
        (case TreeTree p tree api of
           Inl err \<Rightarrow> errors_Is err ErrDirectoryNotFound
         | Inr sub \<Rightarrow> False))"

lemma cloneVersions_drop_lacking:
  assumes "\<forall>a \<in> set as. a < length h"
  shows "cloneVersions p api as vs0 h =
           cloneVersions p api (filter (\<lambda>a. \<not> lacksAPI p api (h ! a)) as) vs0 h"
  using assms
proof (induction as arbitrary: vs0 h)
  case Nil
  show ?case by simp
next
  case (Cons a as)
  let ?m = "(h ! a)\<lparr>Log := []\<rparr>"
  from Cons.prems have v: "\<forall>b \<in> set as. b < length h" by simp
  have grow: "filter (\<lambda>b. \<not> lacksAPI p api ((h @ [?m]) ! b)) as =
      filter (\<lambda>b. \<not> lacksAPI p api (h ! b)) as"
    using v by (intro filter_cong) (simp_all add: nth_append)
  from v have v': "\<forall>b \<in> set as. b < length (h @ [?m])" by auto
  have IH2: "cloneVersions p api as (vs0 @ [length h]) (h @ [?m]) =
      cloneVersions p api (filter (\<lambda>b. \<not> lacksAPI p api (h ! b)) as) (vs0 @ [length h]) (h @ [?m])"
    using Cons.IH[OF v', of "vs0 @ [length h]"] unfolding grow .
  show ?case
  proof (cases "lacksAPI p api (h ! a)")
    case True
    then have "cloneVersions p api (a # as) vs0 h = cloneVersions p api as vs0 h"
      by (auto simp: lacksAPI_def split: sum.splits)
    with True Cons.IH[OF v] show ?thesis by simp
  next
    case False
    then show ?thesis
      using IH2 by (auto simp: lacksAPI_def split: sum.splits)
  qed
qed

lemma cloneVersions_ok:
  assumes "\<forall>a \<in> set as. a < length h"
    and "\<forall>a \<in> set as. hasAPI p api (h ! a) \<or> lacksAPI p api (h ! a)"
  shows "cloneVersions p api as vs0 h =
    (Inr (vs0 @ [length h..<length h + length (filter (\<lambda>a. hasAPI p api (h ! a)) as)]),
     h @ map (\<lambda>a. (h ! a)\<lparr>Log := []\<rparr>) (filter (\<lambda>a. hasAPI p api (h ! a)) as))"
  using assms
proof (induction as arbitrary: vs0 h)
  case Nil
  show ?case by simp
next
  case (Cons a as)
  let ?m = "(h ! a)\<lparr>Log := []\<rparr>"
  let ?tr = "filter (\<lambda>a. hasAPI p api (h ! a)) as"
  from Cons.prems have v: "\<forall>b \<in> set as. b < length h"
    and t: "\<forall>b \<in> set as. hasAPI p api (h ! b) \<or> lacksAPI p api (h ! b)" by simp_all
  show ?case
  proof (cases "hasAPI p api (h ! a)")
    case True
    have same: "\<forall>b \<in> set as. (h @ [?m]) ! b = h ! b"
      using v by (simp add: nth_append)
    then have tr: "filter (\<lambda>b. hasAPI p api ((h @ [?m]) ! b)) as = ?tr"
      by (intro filter_cong) simp_all
    from v have v': "\<forall>b \<in> set as. b < length (h @ [?m])" by auto
    from t same have t': "\<forall>b \<in> set as. hasAPI p api ((h @ [?m]) ! b) \<or> lacksAPI p api ((h @ [?m]) ! b)"
      by simp
    have mp: "map (\<lambda>b. ((h @ [?m]) ! b)\<lparr>Log := []\<rparr>) ?tr = map (\<lambda>b. (h ! b)\<lparr>Log := []\<rparr>) ?tr"
      using same by (intro map_cong) simp_all
    have IH: "cloneVersions p api as (vs0 @ [length h]) (h @ [?m]) =
      (Inr ((vs0 @ [length h]) @ [length (h @ [?m])..<length (h @ [?m]) + length ?tr]),
       (h @ [?m]) @ map (\<lambda>b. (h ! b)\<lparr>Log := []\<rparr>) ?tr)"
      using Cons.IH[OF v' t', of "vs0 @ [length h]"] unfolding tr mp .
    have up: "[length h..<length h + length (a # ?tr)] =
        length h # [length (h @ [?m])..<length (h @ [?m]) + length ?tr]"
      by (simp add: upt_conv_Cons del: upt_Suc)
    have lhs: "cloneVersions p api (a # as) vs0 h =
        cloneVersions p api as (vs0 @ [length h]) (h @ [?m])"
      using True by (auto simp: hasAPI_def split: sum.splits)
    have fl: "filter (\<lambda>a. hasAPI p api (h ! a)) (a # as) = a # ?tr"
      using True by simp
    show ?thesis
      unfolding lhs fl IH up by simp
  next
    case False
    with Cons.prems have "lacksAPI p api (h ! a)" by simp
    then have "cloneVersions p api (a # as) vs0 h = cloneVersions p api as vs0 h"
      by (auto simp: lacksAPI_def split: sum.splits)
    with False Cons.IH[OF v t] show ?thesis by simp
  qed
qed

lemma hasAPI_Log [simp]: "hasAPI p api (v\<lparr>Log := l\<rparr>) = hasAPI p api v"
  by (simp add: hasAPI_def)

lemma sameButLog_hasAPI: "sameButLog h h' \<Longrightarrow> hasAPI p api (h ! a) = hasAPI p api (h' ! a)"
  by (simp add: hasAPI_def sameButLog_fields(1))

lemma cloneVersions_hasAPI:
  "cloneVersions p api as vs0 h = (Inr vs, h1) \<Longrightarrow>
     \<forall>x \<in> set (drop (length h) h1). hasAPI p api x"
proof (induction as arbitrary: vs0 h)
  case Nil
  then show ?case by simp
next
  case (Cons a as)
  show ?case
  proof (cases "hasAPI p api (h ! a)")
    case True
    let ?m = "(h ! a)\<lparr>Log := []\<rparr>"
    from True Cons.prems
    have c: "cloneVersions p api as (vs0 @ [length h]) (h @ [?m]) = (Inr vs, h1)"
      by (auto simp: hasAPI_def split: sum.splits)
    from cloneVersions_result[OF c] obtain new where new: "h1 = (h @ [?m]) @ new" by blast
    from Cons.IH[OF c] new True show ?thesis by simp
  next
    case False
    with Cons.prems have "cloneVersions p api as vs0 h = (Inr vs, h1)"
      by (auto simp: hasAPI_def split: sum.splits if_splits)
    then show ?thesis by (rule Cons.IH)
  qed
qed

lemma getChangelog_sameButLog:
  assumes run: "getChangelog p m api h = (Inr vs, h')" and ne: "vs \<noteq> []"
  shows "\<exists>h1. cloneVersions p api (Versions m) [] h = (Inr vs, h1) \<and> sameButLog h' h1"
proof -
  from getChangelog_clone[OF run ne] obtain h1
    where clone: "cloneVersions p api (Versions m) [] h = (Inr vs, h1)"
    by blast
  let ?s0 = "\<lparr>heap = h1, inScope = Map.empty, accumulators = []\<rparr>"
  let ?opts = "\<lparr>From = Hash (Commit (h1 ! (vs ! 0))), Order = LogOrderCommitterTime\<rparr>"
  obtain lg where lg: "RepoLog p (Repo m) ?opts = Inr lg"
    using run unfolding getChangelog_tracked[OF clone ne]
    by (cases "RepoLog p (Repo m) ?opts") simp_all
  obtain r s where fe: "outcome (ForEach p (changelogFilter api vs) (changelogCallback vs)
               (NewCommitPathIterFromIter lg) ?s0) = (r, s)"
    by (cases "outcome (ForEach p (changelogFilter api vs) (changelogCallback vs)
               (NewCommitPathIterFromIter lg) ?s0)")
  from run lg fe have s: "heap s = h'"
    unfolding getChangelog_tracked[OF clone ne] by (cases r) simp_all
  from fe have "scoped_run_all p (changelogFilter api vs) (changelogCallback vs) lg ?s0 = (r, s)"
    by (simp add: ForEach_refines)
  from scoped_run_all_sameButLog[OF this] s have "sameButLog h' h1"
    by simp
  with clone show ?thesis by blast
qed

text \<open>
  C8. The versions whose tagged tree lacks the API directory do not count: getChangelog
  returns what it returns on the module without them, error or not, and every version of a
  result has the API directory.
\<close>

theorem lacking_versions_are_excluded:
  assumes valid: "\<forall>a \<in> set (Versions m). a < length h"
  shows "getChangelog p m api h =
           getChangelog p (m\<lparr>Versions := filter (\<lambda>a. \<not> lacksAPI p api (h ! a)) (Versions m)\<rparr>) api h \<and>
         (\<forall>vs h'. getChangelog p m api h = (Inr vs, h') \<longrightarrow> (\<forall>a \<in> set vs. hasAPI p api (h' ! a)))"
proof (intro conjI allI impI ballI)
  let ?kept = "filter (\<lambda>a. \<not> lacksAPI p api (h ! a)) (Versions m)"
  have clone: "cloneVersions p api (Versions m) [] h = cloneVersions p api ?kept [] h"
    using valid by (rule cloneVersions_drop_lacking)
  have R: "Repo (m\<lparr>Versions := ?kept\<rparr>) = Repo m" "Versions (m\<lparr>Versions := ?kept\<rparr>) = ?kept"
    by simp_all
  show "getChangelog p m api h = getChangelog p (m\<lparr>Versions := ?kept\<rparr>) api h"
  proof (cases "?kept = []")
    case True
    with clone have "cloneVersions p api (Versions m) [] h = (Inr [], h)" by simp
    with True show ?thesis unfolding getChangelog_def R by simp
  next
    case False
    then have "Versions m \<noteq> []" by auto
    with False show ?thesis unfolding getChangelog_def R clone by simp
  qed
next
  fix vs h' a
  assume run: "getChangelog p m api h = (Inr vs, h')" and a: "a \<in> set vs"
  then have ne: "vs \<noteq> []" by auto
  from getChangelog_sameButLog[OF run ne] obtain h1
    where clone: "cloneVersions p api (Versions m) [] h = (Inr vs, h1)" and same: "sameButLog h' h1"
    by blast
  from cloneVersions_result[OF clone] obtain new where new: "h1 = h @ new"
    "vs = [length h..<length h1]" by auto
  with a have "h1 ! a \<in> set (drop (length h) h1)"
    by (auto simp: nth_append)
  with cloneVersions_hasAPI[OF clone] have "hasAPI p api (h1 ! a)" by blast
  with same show "hasAPI p api (h' ! a)" by (simp add: sameButLog_hasAPI)
qed

theorem lacking_versions_are_excluded_witness:
  "getChangelog demoProvider demoModule ''api'' demoHeap =
     getChangelog demoProvider (demoModule\<lparr>Versions := [0, 1, 2]\<rparr>) ''api'' demoHeap \<and>
   lacksAPI demoProvider ''api'' (demoHeap ! 3) \<and>
   hasAPI demoProvider ''api'' (demoChangelog ! 4)"
proof -
  have valid: "\<forall>a \<in> set (Versions demoModule). a < length demoHeap" by code_simp
  have kept: "filter (\<lambda>a. \<not> lacksAPI demoProvider ''api'' (demoHeap ! a)) (Versions demoModule)
      = [0, 1, 2]"
    by code_simp
  have lacks: "lacksAPI demoProvider ''api'' (demoHeap ! 3)" by code_simp
  have a: "4 \<in> set [4, 5, 6::nat]" by simp
  from lacking_versions_are_excluded[OF valid, of demoProvider "''api''"] kept demo_run a lacks
  show ?thesis by auto
qed

section \<open>Versions with an empty list\<close>

text \<open>A second module over the same repository: \<open>v0.9.0\<close> is tagged at the newest commit,
  \<open>v1.0.0\<close> at an older one.\<close>

definition demoHeap2 :: heap where
  "demoHeap2 = [tagged ''v1.0.0'' ''c2'' (stable 1 0 0), tagged ''v0.9.0'' ''c6'' (stable 0 9 0)]"

definition demoModule2 :: "commit list Module" where
  "demoModule2 =
    \<lparr>Title = ''Demo'', Name = ''example.com/demo'', Repo = demoHistory,
     Versions = [0, 1], LatestVersion = Some 0,
     VersionLookup = map_of [(''v1.0.0'', 0), (''v0.9.0'', 1)]\<rparr>"

lemma pass_sameButLog: "sameButLog (heap (pass api vs D s)) (heap s)"
proof (induction D arbitrary: s)
  case Nil
  show ?case by simp
next
  case (Cons x D)
  obtain c names where x: "x = (c, names)" by (cases x)
  from Cons.IH[of "visit api vs c names s"] visit_sameButLog[of api vs c names s] x
  show ?case by (auto intro: sameButLog_trans)
qed

lemma window_nothing_relevant:
  assumes "\<forall>x \<in> set (dropWhile (\<lambda>x. Hash (fst x) \<noteq> t) D). \<not> R x"
  shows "filter R (windowOf stop t D) = []"
proof (cases rule: windowOf_cases[of stop t D])
  case 1
  then show ?thesis by simp
next
  case (2 x rest)
  have "set (x # takeWhile (\<lambda>y. \<not> stop (fst y)) rest) \<subseteq> set (x # rest)"
    by (auto dest: set_takeWhileD)
  with assms 2 show ?thesis
    by (auto simp: filter_empty_conv)
qed

text \<open>
  C9. When no provider call fails (every tagged tree is read and has or lacks the API
  directory, the log is read to its end, every diff succeeds) and the commits of the log are
  distinct, getChangelog succeeds with a copy of every version that has the API directory;
  and a version whose tag commit is not in the log, or with no commit touching the API from
  its tag commit on, has the empty list.
\<close>

theorem untouched_version_has_empty_log:
  assumes valid: "\<forall>a \<in> set (Versions m). a < length h"
    and trees: "\<forall>a \<in> set (Versions m). hasAPI p api (h ! a) \<or> lacksAPI p api (h ! a)"
    and tracked: "filter (\<lambda>a. hasAPI p api (h ! a)) (Versions m) = t # ts"
    and log: "RepoLog p (Repo m)
        \<lparr>From = Hash (Commit (h ! t)), Order = LogOrderCommitterTime\<rparr> = Inr (H, EOF)"
    and diffs: "diffsVersusNext p H = evaluated D"
    and dist: "distinct (map Hash H)"
  shows "\<exists>h'. getChangelog p m api h = (Inr [length h..<length h + length (t # ts)], h') \<and>
          (\<forall>k < length (t # ts).
             Tag (h' ! (length h + k)) = Tag (h ! ((t # ts) ! k)) \<and>
             Commit (h' ! (length h + k)) = Commit (h ! ((t # ts) ! k)) \<and>
             (Hash (Commit (h ! ((t # ts) ! k))) \<notin> Hash ` set H \<or>
              (\<forall>x \<in> set (dropWhile (\<lambda>x. Hash (fst x) \<noteq> Hash (Commit (h ! ((t # ts) ! k)))) D).
                  \<not> touchesAPI api (snd x))
              \<longrightarrow> Log (h' ! (length h + k)) = []))"
proof -
  define vs where "vs = [length h..<length h + length (t # ts)]"
  define h1 where "h1 = h @ map (\<lambda>a. (h ! a)\<lparr>Log := []\<rparr>) (t # ts)"
  define s0 where "s0 = \<lparr>heap = h1, inScope = Map.empty, accumulators = []\<rparr>"
  define h' where "h' = heap (pass api vs D s0)"
  have clone: "cloneVersions p api (Versions m) [] h = (Inr vs, h1)"
    using cloneVersions_ok[OF valid trees, of "[]"] unfolding tracked vs_def h1_def by simp
  have ne: "vs \<noteq> []" by (simp add: vs_def)
  have nth1: "h1 ! (length h + k) = (h ! ((t # ts) ! k))\<lparr>Log := []\<rparr>" if "k < length (t # ts)" for k
    using that unfolding h1_def
    by (simp add: nth_append del: nth_Cons_Suc map_eq_conv list.map)
  have v0: "vs ! 0 = length h"
    unfolding vs_def by (subst nth_upt) simp_all
  have mem: "length h + k \<in> set vs" if "k < length (t # ts)" for k
    using that unfolding vs_def by auto
  from nth1[of 0] v0 have "Commit (h1 ! (vs ! 0)) = Commit (h ! t)" by simp
  with log have lg: "RepoLog p (Repo m)
      \<lparr>From = Hash (Commit (h1 ! (vs ! 0))), Order = LogOrderCommitterTime\<rparr> = Inr (H, EOF)"
    by simp
  have fe: "outcome (ForEach p (changelogFilter api vs) (changelogCallback vs)
      (NewCommitPathIterFromIter (H, EOF)) s0) = (None, pass api vs D s0)"
    using diffs by (rule ForEach_pass)
  have run: "getChangelog p m api h = (Inr vs, h')"
    unfolding getChangelog_tracked[OF clone ne] lg h'_def
    using fe by (simp add: s0_def)
  have same: "sameButLog h' h1"
    using pass_sameButLog[of api vs D s0] by (simp add: h'_def s0_def)
  from lg have log': "RepoLog p (Repo m)
      \<lparr>From = Hash (Commit (h' ! (vs ! 0))), Order = LogOrderCommitterTime\<rparr> = Inr (H, EOF)"
    by (simp only: sameButLog_fields(1)[OF same])
  have "Tag (h' ! (length h + k)) = Tag (h ! ((t # ts) ! k)) \<and>
        Commit (h' ! (length h + k)) = Commit (h ! ((t # ts) ! k)) \<and>
        (Hash (Commit (h ! ((t # ts) ! k))) \<notin> Hash ` set H \<or>
          (\<forall>x \<in> set (dropWhile (\<lambda>x. Hash (fst x) \<noteq> Hash (Commit (h ! ((t # ts) ! k)))) D).
              \<not> touchesAPI api (snd x))
          \<longrightarrow> Log (h' ! (length h + k)) = [])"
    if k: "k < length (t # ts)" for k
  proof -
    let ?a = "length h + k"
    let ?t = "Hash (Commit (h ! ((t # ts) ! k)))"
    from k have a: "?a \<in> set vs" by (rule mem)
    have tg: "Tag (h' ! ?a) = Tag (h ! ((t # ts) ! k))"
      unfolding sameButLog_fields(3)[OF same, of ?a] nth1[OF k] by simp
    have cm: "Commit (h' ! ?a) = Commit (h ! ((t # ts) ! k))"
      unfolding sameButLog_fields(1)[OF same, of ?a] nth1[OF k] by simp
    have L: "Log (h' ! ?a) = map fst (filter (\<lambda>(c, names). touchesAPI api names)
        (windowOf (stopsAt h' vs ?a) ?t D))"
      using getChangelog_Log(2)[OF run log' diffs dist a] unfolding cm .
    have E: "Log (h' ! ?a) = []"
      if "\<forall>x \<in> set (dropWhile (\<lambda>x. Hash (fst x) \<noteq> ?t) D). \<not> touchesAPI api (snd x)"
    proof -
      from that have "\<forall>x \<in> set (dropWhile (\<lambda>x. Hash (fst x) \<noteq> ?t) D).
          \<not> (case x of (c, names) \<Rightarrow> touchesAPI api names)"
        by (simp add: case_prod_beta)
      from window_nothing_relevant[OF this] L show ?thesis by simp
    qed
    have N: "dropWhile (\<lambda>x. Hash (fst x) \<noteq> ?t) D = []" if "?t \<notin> Hash ` set H"
    proof -
      from evaluated_fst[OF diffs] have "Hash ` set H = (\<lambda>x. Hash (fst x)) ` set D"
        by (metis image_image set_map)
      with that have "?t \<notin> (\<lambda>x. Hash (fst x)) ` set D"
        by simp
      then have "\<forall>x \<in> set D. Hash (fst x) \<noteq> ?t"
        by (metis imageI)
      then show ?thesis by simp
    qed
    show ?thesis
    proof (intro conjI impI)
      show "Tag (h' ! ?a) = Tag (h ! ((t # ts) ! k))" by (rule tg)
      show "Commit (h' ! ?a) = Commit (h ! ((t # ts) ! k))" by (rule cm)
      assume "?t \<notin> Hash ` set H \<or>
          (\<forall>x \<in> set (dropWhile (\<lambda>x. Hash (fst x) \<noteq> ?t) D). \<not> touchesAPI api (snd x))"
      then show "Log (h' ! ?a) = []"
      proof
        assume "?t \<notin> Hash ` set H"
        from N[OF this] show ?thesis by (intro E) (metis empty_iff list.set(1))
      next
        assume "\<forall>x \<in> set (dropWhile (\<lambda>x. Hash (fst x) \<noteq> ?t) D). \<not> touchesAPI api (snd x)"
        then show ?thesis by (rule E)
      qed
    qed
  qed
  then have "\<forall>k < length (t # ts).
        Tag (h' ! (length h + k)) = Tag (h ! ((t # ts) ! k)) \<and>
        Commit (h' ! (length h + k)) = Commit (h ! ((t # ts) ! k)) \<and>
        (Hash (Commit (h ! ((t # ts) ! k))) \<notin> Hash ` set H \<or>
          (\<forall>x \<in> set (dropWhile (\<lambda>x. Hash (fst x) \<noteq> Hash (Commit (h ! ((t # ts) ! k)))) D).
              \<not> touchesAPI api (snd x))
          \<longrightarrow> Log (h' ! (length h + k)) = [])"
    by blast
  with run show ?thesis unfolding vs_def by blast
qed

theorem untouched_version_has_empty_log_witness:
  "\<exists>h'. getChangelog demoProvider demoModule2 ''api'' demoHeap2 = (Inr [2, 3], h') \<and>
      Tag (h' ! 3) = ''v0.9.0'' \<and> Log (h' ! 3) = []"
proof -
  let ?D = "[(cmt ''c2'', [''api/a'']), (cmt ''c1'', [''api/a'']), (cmt ''c0'', [''other/x''])]"
  have valid: "\<forall>a \<in> set (Versions demoModule2). a < length demoHeap2" by code_simp
  have trees: "\<forall>a \<in> set (Versions demoModule2).
      hasAPI demoProvider ''api'' (demoHeap2 ! a) \<or> lacksAPI demoProvider ''api'' (demoHeap2 ! a)"
    by code_simp
  have tracked: "filter (\<lambda>a. hasAPI demoProvider ''api'' (demoHeap2 ! a)) (Versions demoModule2)
      = 0 # [1]"
    by code_simp
  have log: "RepoLog demoProvider (Repo demoModule2)
      \<lparr>From = Hash (Commit (demoHeap2 ! 0)), Order = LogOrderCommitterTime\<rparr>
      = Inr (map cmt [''c2'', ''c1'', ''c0''], EOF)"
    by code_simp
  have diffs: "diffsVersusNext demoProvider (map cmt [''c2'', ''c1'', ''c0'']) = evaluated ?D"
    by code_simp
  have dist: "distinct (map Hash (map cmt [''c2'', ''c1'', ''c0'']))" by code_simp
  have never: "Hash (Commit (demoHeap2 ! ((0 # [1]) ! 1))) \<notin> Hash ` set (map cmt [''c2'', ''c1'', ''c0''])"
    by code_simp
  have tag: "Tag (demoHeap2 ! ((0 # [1]) ! 1)) = ''v0.9.0''" by code_simp
  have len: "length demoHeap2 = 2" by code_simp
  from untouched_version_has_empty_log[OF valid trees tracked log diffs dist] obtain h' where
    run: "getChangelog demoProvider demoModule2 ''api'' demoHeap2
            = (Inr [length demoHeap2..<length demoHeap2 + length (0 # [1::nat])], h')"
    and each: "\<forall>k < length (0 # [1::nat]).
       Tag (h' ! (length demoHeap2 + k)) = Tag (demoHeap2 ! ((0 # [1]) ! k)) \<and>
       Commit (h' ! (length demoHeap2 + k)) = Commit (demoHeap2 ! ((0 # [1]) ! k)) \<and>
       (Hash (Commit (demoHeap2 ! ((0 # [1]) ! k))) \<notin> Hash ` set (map cmt [''c2'', ''c1'', ''c0'']) \<or>
        (\<forall>x \<in> set (dropWhile (\<lambda>x. Hash (fst x) \<noteq> Hash (Commit (demoHeap2 ! ((0 # [1]) ! k)))) ?D).
            \<not> touchesAPI ''api'' (snd x))
        \<longrightarrow> Log (h' ! (length demoHeap2 + k)) = [])"
    by blast
  from each[rule_format, of 1] never tag len
  have "Tag (h' ! 3) = ''v0.9.0'' \<and> Log (h' ! 3) = []" by simp
  moreover from run len have "getChangelog demoProvider demoModule2 ''api'' demoHeap2 = (Inr [2, 3], h')"
    by (simp add: upt_conv_Cons del: upt_Suc)
  ultimately show ?thesis by blast
qed

section \<open>The tags newModule tracks\<close>

text \<open>The invariant of the loop over the tags: every tracked version is allocated and its
  tag begins with \<open>v\<close>, and so does every key of the lookup table.\<close>

definition tracksOnlyV :: "'r Module \<times> heap \<Rightarrow> bool" where
  "tracksOnlyV st \<longleftrightarrow>
     (\<forall>a \<in> set (Versions (fst st)). a < length (snd st) \<and>
         HasPrefix (Tag (snd st ! a)) ''v'') \<and>
     (\<forall>name. \<not> HasPrefix name ''v'' \<longrightarrow> VersionLookup (fst st) name = None)"

text \<open>The tags whose short name begins with \<open>v\<close>, and a library whose repositories have
  only those tags.\<close>

definition onlyVTags :: "tagRef list \<Rightarrow> tagRef list" where
  "onlyVTags refs = filter (\<lambda>ref. HasPrefix (RefShort ref) ''v'') refs"

definition withOnlyVTags :: "('r, 'g) gitlib \<Rightarrow> ('r, 'g) gitlib" where
  "withOnlyVTags lib =
    lib\<lparr>RepoTags := (\<lambda>repo. case RepoTags lib repo of
                                Inl err \<Rightarrow> Inl err
                              | Inr refs \<Rightarrow> Inr (onlyVTags refs))\<rparr>"

lemma trackTag_tracksOnlyV:
  assumes "tracksOnlyV st" "trackTag lib repo ref st = (r, st')"
  shows "tracksOnlyV st'"
proof (cases "HasPrefix (RefShort ref) ''v''")
  case False
  with assms show ?thesis by (simp add: trackTag_def)
next
  case True
  show ?thesis
  proof (cases "NewVersion lib (RefShort ref)")
    case (Inl err)
    with True assms show ?thesis by (simp add: trackTag_def)
  next
    case version: (Inr version)
    show ?thesis
    proof (cases "getCommitObjectForTag lib repo ref")
      case (Inl err)
      with True version assms show ?thesis by (simp add: trackTag_def)
    next
      case (Inr commit)
      obtain module h where st: "st = (module, h)" by (cases st)
      with True version Inr assms(2)
      have st': "st' = (module\<lparr>Versions := Versions module @ [length h],
                          VersionLookup := (VersionLookup module)(RefShort ref \<mapsto> length h)\<rparr>,
                 h @ [\<lparr>Tag = RefShort ref, Commit = commit, Version = version,
                         IsPrerelease = (Prerelease version \<noteq> []),
                         DependencyVersions = [], Log = []\<rparr>])"
        by (simp add: trackTag_def Let_def)
      from assms(1) st True show ?thesis
        unfolding st' tracksOnlyV_def by (auto simp: nth_append)
    qed
  qed
qed

lemma tagsForEach_tracksOnlyV:
  "tracksOnlyV st \<Longrightarrow> tagsForEach (trackTag lib repo) refs st = (r, st') \<Longrightarrow> tracksOnlyV st'"
proof (induction refs arbitrary: st)
  case Nil
  then show ?case by simp
next
  case (Cons ref refs)
  obtain e st1 where t: "trackTag lib repo ref st = (e, st1)"
    by (cases "trackTag lib repo ref st")
  from trackTag_tracksOnlyV[OF Cons.prems(1) t] have inv: "tracksOnlyV st1" .
  show ?case
  proof (cases e)
    case None
    with t Cons.prems(2) have "tagsForEach (trackTag lib repo) refs st1 = (r, st')" by simp
    from Cons.IH[OF inv this] show ?thesis .
  next
    case (Some err)
    with t Cons.prems(2) have "st' = st1" by simp
    with inv show ?thesis by simp
  qed
qed

lemma newModule_only_v:
  assumes sort: "\<forall>cmp xs. set (SortFunc lib cmp xs) = set xs"
    and run: "newModule lib cfg h = (Inr module, h')"
  shows "(\<forall>a \<in> set (Versions module). a < length h' \<and> HasPrefix (Tag (h' ! a)) ''v'') \<and>
         (\<forall>name. \<not> HasPrefix name ''v'' \<longrightarrow>
            VersionLookup module name = None \<and>
            name \<notin> (\<lambda>a. Tag (h' ! a)) ` set (Versions module))"
proof -
  let ?url = "if ConfigClone cfg = [] then ''https://'' @ ConfigName cfg else ConfigClone cfg"
  from run obtain repo where repo: "GitClone lib ?url = Inr repo"
    by (cases "GitClone lib ?url") (simp_all add: newModule_def)
  let ?m0 = "\<lparr>Title = ConfigTitle cfg, Name = ConfigName cfg, Repo = repo,
              Versions = [], LatestVersion = None, VersionLookup = Map.empty\<rparr>"
  from run repo obtain refs where refs: "RepoTags lib repo = Inr refs"
    by (cases "RepoTags lib repo") (simp_all add: newModule_def)
  obtain e m1 h1 where fe: "tagsForEach (trackTag lib repo) refs (?m0, h) = (e, m1, h1)"
    by (cases "tagsForEach (trackTag lib repo) refs (?m0, h)")
  have "tracksOnlyV (?m0, h)"
    by (simp add: tracksOnlyV_def)
  from tagsForEach_tracksOnlyV[OF this fe] have inv: "tracksOnlyV (m1, h1)" .
  from run repo refs fe have e: "e = None"
    by (cases e) (simp_all add: newModule_def)
  let ?vs = "rev (SortFunc lib (\<lambda>a b. Compare lib (Version (h1 ! a)) (Version (h1 ! b))) (Versions m1))"
  from run repo refs fe e have res: "h' = h1" "Versions module = ?vs"
      "VersionLookup module = VersionLookup m1"
    by (auto simp: newModule_def Let_def)
  from sort have "set ?vs = set (Versions m1)" by simp
  with inv res show ?thesis
    unfolding tracksOnlyV_def by auto
qed

lemma trackTag_skips:
  "\<not> HasPrefix (RefShort ref) ''v'' \<Longrightarrow> trackTag lib repo ref st = (None, st)"
  by (simp add: trackTag_def)

lemma tagsForEach_skips:
  "tagsForEach (trackTag lib repo) refs st = tagsForEach (trackTag lib repo) (onlyVTags refs) st"
proof (induction refs arbitrary: st)
  case Nil
  show ?case by (simp add: onlyVTags_def)
next
  case (Cons ref refs)
  show ?case
  proof (cases "HasPrefix (RefShort ref) ''v''")
    case True
    then have f: "onlyVTags (ref # refs) = ref # onlyVTags refs"
      by (simp add: onlyVTags_def)
    obtain e st1 where t: "trackTag lib repo ref st = (e, st1)"
      by (cases "trackTag lib repo ref st")
    from t Cons.IH[of st1] show ?thesis
      unfolding f by (cases e) simp_all
  next
    case False
    then have f: "onlyVTags (ref # refs) = onlyVTags refs"
      by (simp add: onlyVTags_def)
    from trackTag_skips[OF False, of lib repo st] Cons.IH[of st] show ?thesis
      unfolding f by simp
  qed
qed

lemma getCommitObjectForTag_withOnlyVTags:
  "getCommitObjectForTag (withOnlyVTags lib) repo ref = getCommitObjectForTag lib repo ref"
  by (simp add: getCommitObjectForTag_def withOnlyVTags_def split: sum.splits)

lemma NewVersion_withOnlyVTags: "NewVersion (withOnlyVTags lib) = NewVersion lib"
  by (simp add: withOnlyVTags_def)

lemma trackTag_withOnlyVTags: "trackTag (withOnlyVTags lib) repo = trackTag lib repo"
proof (intro ext)
  fix ref :: tagRef and st :: "'a Module \<times> heap"
  show "trackTag (withOnlyVTags lib) repo ref st = trackTag lib repo ref st"
    unfolding trackTag_def getCommitObjectForTag_withOnlyVTags NewVersion_withOnlyVTags ..
qed

lemma newModule_skips: "newModule lib cfg h = newModule (withOnlyVTags lib) cfg h"
proof -
  let ?url = "if ConfigClone cfg = [] then ''https://'' @ ConfigName cfg else ConfigClone cfg"
  have clone: "GitClone (withOnlyVTags lib) = GitClone lib"
    and srt: "SortFunc (withOnlyVTags lib) = SortFunc lib"
    and cmp: "Compare (withOnlyVTags lib) = Compare lib"
    by (simp_all add: withOnlyVTags_def)
  show ?thesis
  proof (cases "GitClone lib ?url")
    case (Inl err)
    then show ?thesis by (simp add: newModule_def clone)
  next
    case (Inr repo)
    show ?thesis
    proof (cases "RepoTags lib repo")
      case (Inl err)
      then have "RepoTags (withOnlyVTags lib) repo = Inl err"
        by (simp add: withOnlyVTags_def)
      with Inl Inr show ?thesis by (simp add: newModule_def clone)
    next
      case refs: (Inr refs)
      then have "RepoTags (withOnlyVTags lib) repo = Inr (onlyVTags refs)"
        by (simp add: withOnlyVTags_def)
      with refs Inr show ?thesis
        unfolding newModule_def clone srt cmp trackTag_withOnlyVTags
        by (simp add: tagsForEach_skips[of lib repo refs])
    qed
  qed
qed

text \<open>
  C10. newModule skips a tag whose short name does not begin with \<open>v\<close>, in silence: on such
  a tag the function given to the loop over the tags returns no error and leaves the module
  and the heap as they are, whatever the semantic-version parser says of the name; the loop
  and newModule return what they return on the tags that begin with \<open>v\<close> alone, error or
  not. So in a module newModule returns, every version has a tag that begins with \<open>v\<close>,
  and a name without that prefix is no key of \<^verbatim>\<open>VersionLookup\<close> and the tag of no version.
  (\<^verbatim>\<open>slices.SortFunc\<close> is taken to return its input rearranged.)
\<close>

theorem newModule_tracks_only_v_tags:
  fixes lib :: "('r, 'g) gitlib"
  assumes sort: "\<forall>cmp xs. set (SortFunc lib cmp xs) = set xs"
  shows "(\<forall>repo ref st. \<not> HasPrefix (RefShort ref) ''v'' \<longrightarrow>
            trackTag lib repo ref st = (None, st)) \<and>
         (\<forall>repo refs st. tagsForEach (trackTag lib repo) refs st =
            tagsForEach (trackTag lib repo) (onlyVTags refs) st) \<and>
         newModule lib cfg h = newModule (withOnlyVTags lib) cfg h \<and>
         (\<forall>module h'. newModule lib cfg h = (Inr module, h') \<longrightarrow>
            (\<forall>a \<in> set (Versions module). a < length h' \<and> HasPrefix (Tag (h' ! a)) ''v'') \<and>
            (\<forall>name. \<not> HasPrefix name ''v'' \<longrightarrow>
               VersionLookup module name = None \<and>
               name \<notin> (\<lambda>a. Tag (h' ! a)) ` set (Versions module)))"
proof (intro conjI allI impI)
  fix repo :: 'r and ref :: tagRef and st :: "'r Module \<times> heap"
  assume "\<not> HasPrefix (RefShort ref) ''v''"
  then show "trackTag lib repo ref st = (None, st)"
    by (rule trackTag_skips)
next
  fix repo :: 'r and refs :: "tagRef list" and st :: "'r Module \<times> heap"
  show "tagsForEach (trackTag lib repo) refs st =
      tagsForEach (trackTag lib repo) (onlyVTags refs) st"
    by (rule tagsForEach_skips)
next
  show "newModule lib cfg h = newModule (withOnlyVTags lib) cfg h"
    by (rule newModule_skips)
next
  fix module h'
  assume run: "newModule lib cfg h = (Inr module, h')"
  from newModule_only_v[OF sort run]
  show "\<forall>a \<in> set (Versions module). a < length h' \<and> HasPrefix (Tag (h' ! a)) ''v''"
    by blast
  fix name
  assume "\<not> HasPrefix name ''v''"
  with newModule_only_v[OF sort run]
  show "VersionLookup module name = None"
    and "name \<notin> (\<lambda>a. Tag (h' ! a)) ` set (Versions module)"
    by blast+
qed

subsection \<open>A small tag list\<close>

fun insertBy :: "('a \<Rightarrow> 'a \<Rightarrow> int) \<Rightarrow> 'a \<Rightarrow> 'a list \<Rightarrow> 'a list" where
  "insertBy cmp x [] = [x]"
| "insertBy cmp x (y # ys) = (if cmp x y \<le> 0 then x # y # ys else y # insertBy cmp x ys)"

definition sortBy :: "('a \<Rightarrow> 'a \<Rightarrow> int) \<Rightarrow> 'a list \<Rightarrow> 'a list" where
  "sortBy cmp xs = foldr (insertBy cmp) xs []"

definition demoParse :: "string \<Rightarrow> error + Version" where
  "demoParse name =
    (case map_of
        [(''v1.0.0'', stable 1 0 0), (''1.0.0'', stable 1 0 0),
         (''v1.1.0-rc1'', (stable 1 1 0)\<lparr>Prerelease := ''rc1''\<rparr>)] name of
       None \<Rightarrow> Inl (Failure ''Invalid Semantic Version'')
     | Some v \<Rightarrow> Inr v)"

definition demoCompare :: "Version \<Rightarrow> Version \<Rightarrow> int" where
  "demoCompare a b =
    (if Major a \<noteq> Major b then (if Major a < Major b then - 1 else 1)
     else if Minor a \<noteq> Minor b then (if Minor a < Minor b then - 1 else 1)
     else if Patch a \<noteq> Patch b then (if Patch a < Patch b then - 1 else 1)
     else if Prerelease a = Prerelease b then 0
     else if Prerelease a = [] then 1
     else if Prerelease b = [] then - 1
     else 0)"

definition demoLib :: "(commit list, hash) gitlib" where
  "demoLib =
    \<lparr>GitClone = (\<lambda>url. Inr demoHistory),
     RepoTags = (\<lambda>repo. Inr
       [\<lparr>RefShort = ''v1.0.0'', RefHash = ''c2''\<rparr>, \<lparr>RefShort = ''1.0.0'', RefHash = ''c2''\<rparr>,
        \<lparr>RefShort = ''vnext'', RefHash = ''c6''\<rparr>, \<lparr>RefShort = ''v1.1.0-rc1'', RefHash = ''c5''\<rparr>]),
     TagObject = (\<lambda>repo ident. Inl ErrObjectNotFound),
     CommitObject = (\<lambda>repo ident.
       if ident \<in> set (map Hash repo) then Inr (cmt ident) else Inl ErrObjectNotFound),
     TagCommit = (\<lambda>t. Inr (cmt t)),
     NewVersion = demoParse,
     Compare = demoCompare,
     SortFunc = sortBy\<rparr>"

definition demoConfig :: ModuleConfig where
  "demoConfig = \<lparr>ConfigTitle = ''Demo'', ConfigName = ''example.com/demo'', ConfigClone = []\<rparr>"

lemma set_insertBy: "set (insertBy cmp x xs) = insert x (set xs)"
  by (induction xs) auto

lemma set_sortBy: "set (sortBy cmp xs) = set xs"
  by (induction xs) (simp_all add: sortBy_def set_insertBy)

theorem newModule_tracks_only_v_tags_witness:
  "map RefShort (projr (RepoTags demoLib demoHistory)) =
      [''v1.0.0'', ''1.0.0'', ''vnext'', ''v1.1.0-rc1''] \<and>
   NewVersion demoLib ''1.0.0'' = Inr (stable 1 0 0) \<and>
   trackTag demoLib demoHistory \<lparr>RefShort = ''1.0.0'', RefHash = ''c2''\<rparr> (demoModule, demoHeap)
     = (None, (demoModule, demoHeap)) \<and>
   newModule demoLib demoConfig [] = newModule (withOnlyVTags demoLib) demoConfig [] \<and>
   map RefShort (projr (RepoTags (withOnlyVTags demoLib) demoHistory)) =
      [''v1.0.0'', ''vnext'', ''v1.1.0-rc1''] \<and>
   isl (fst (newModule demoLib demoConfig [])) = False \<and>
   map (\<lambda>a. Tag (snd (newModule demoLib demoConfig []) ! a))
      (Versions (projr (fst (newModule demoLib demoConfig [])))) = [''v1.1.0-rc1'', ''v1.0.0''] \<and>
   VersionLookup (projr (fst (newModule demoLib demoConfig []))) ''1.0.0'' = None \<and>
   ''1.0.0'' \<notin> (\<lambda>a. Tag (snd (newModule demoLib demoConfig []) ! a)) `
      set (Versions (projr (fst (newModule demoLib demoConfig []))))"
proof -
  let ?r = "newModule demoLib demoConfig []"
  have sort: "\<forall>cmp xs. set (SortFunc demoLib cmp xs) = set xs"
    by (simp add: demoLib_def set_sortBy)
  note c10 = newModule_tracks_only_v_tags[OF sort, of demoConfig "[]"]
  have ok: "isl (fst ?r) = False" by code_simp
  then have run: "?r = (Inr (projr (fst ?r)), snd ?r)"
    by (cases ?r; cases "fst ?r") auto
  have refs: "map RefShort (projr (RepoTags demoLib demoHistory)) =
      [''v1.0.0'', ''1.0.0'', ''vnext'', ''v1.1.0-rc1'']"
    by code_simp
  have kept: "map RefShort (projr (RepoTags (withOnlyVTags demoLib) demoHistory)) =
      [''v1.0.0'', ''vnext'', ''v1.1.0-rc1'']"
    by code_simp
  have tags: "map (\<lambda>a. Tag (snd ?r ! a)) (Versions (projr (fst ?r))) = [''v1.1.0-rc1'', ''v1.0.0'']"
    by code_simp
  have parses: "NewVersion demoLib ''1.0.0'' = Inr (stable 1 0 0)" by code_simp
  have nov: "\<not> HasPrefix ''1.0.0'' ''v''" by code_simp
  then have nor: "\<not> HasPrefix (RefShort \<lparr>RefShort = ''1.0.0'', RefHash = ''c2''\<rparr>) ''v''"
    by simp
  note skip = c10[THEN conjunct1, rule_format, OF nor, of demoHistory "(demoModule, demoHeap)"]
  note same = c10[THEN conjunct2, THEN conjunct2, THEN conjunct1]
  note only = c10[THEN conjunct2, THEN conjunct2, THEN conjunct2, rule_format, OF run]
  note none = only[THEN conjunct2, rule_format, OF nov]
  show ?thesis
    by (intro conjI)
      (rule refs parses skip same kept ok tags none[THEN conjunct1] none[THEN conjunct2])+
qed

section \<open>The history getChangelog reads\<close>

text \<open>
  C6, as amended. When no provider call fails, getChangelog runs the iterator over the log
  that \<^verbatim>\<open>repo.Log\<close> returns from the tag commit of the first version that has the API
  directory, in committer-time order, and over the whole of it: the run of the iterator is
  the pass over every commit of that log, and the result is the heap that pass leaves. No
  other log of the repository is read.
\<close>

theorem changelog_runs_over_log_from_first_version:
  fixes p :: "('r, 't) provider" and m :: "'r Module" and h :: heap and api :: string
  defines "tracked \<equiv> filter (\<lambda>a. hasAPI p api (h ! a)) (Versions m)"
  defines "vs \<equiv> [length h..<length h + length tracked]"
    and "s0 \<equiv> \<lparr>heap = h @ map (\<lambda>a. (h ! a)\<lparr>Log := []\<rparr>) tracked,
                 inScope = Map.empty, accumulators = []\<rparr>"
  assumes valid: "\<forall>a \<in> set (Versions m). a < length h"
    and trees: "\<forall>a \<in> set (Versions m). hasAPI p api (h ! a) \<or> lacksAPI p api (h ! a)"
    and ne: "tracked \<noteq> []"
    and log: "RepoLog p (Repo m)
        \<lparr>From = Hash (Commit (h ! (tracked ! 0))), Order = LogOrderCommitterTime\<rparr> = Inr (H, EOF)"
    and diffs: "diffsVersusNext p H = evaluated D"
  shows "outcome (ForEach p (changelogFilter api vs) (changelogCallback vs)
            (NewCommitPathIterFromIter (H, EOF)) s0) = (None, pass api vs D s0) \<and>
         getChangelog p m api h = (Inr vs, heap (pass api vs D s0)) \<and>
         map fst D = H"
proof -
  define h1 where "h1 = h @ map (\<lambda>a. (h ! a)\<lparr>Log := []\<rparr>) tracked"
  have s0: "s0 = \<lparr>heap = h1, inScope = Map.empty, accumulators = []\<rparr>"
    by (simp add: s0_def h1_def)
  have clone: "cloneVersions p api (Versions m) [] h = (Inr vs, h1)"
    using cloneVersions_ok[OF valid trees, of "[]"] unfolding tracked_def vs_def h1_def by simp
  from ne have vne: "vs \<noteq> []" by (simp add: vs_def)
  from ne have "0 < length tracked" by simp
  then have v0: "vs ! 0 = length h"
    unfolding vs_def by (subst nth_upt) simp_all
  from ne have "h1 ! (length h + 0) = (h ! (tracked ! 0))\<lparr>Log := []\<rparr>"
    unfolding h1_def by (simp add: nth_append del: map_eq_conv)
  with v0 have "Commit (h1 ! (vs ! 0)) = Commit (h ! (tracked ! 0))" by simp
  with log have lg: "RepoLog p (Repo m)
      \<lparr>From = Hash (Commit (h1 ! (vs ! 0))), Order = LogOrderCommitterTime\<rparr> = Inr (H, EOF)"
    by simp
  have fe: "outcome (ForEach p (changelogFilter api vs) (changelogCallback vs)
      (NewCommitPathIterFromIter (H, EOF)) s0) = (None, pass api vs D s0)"
    using diffs by (rule ForEach_pass)
  have run: "getChangelog p m api h = (Inr vs, heap (pass api vs D s0))"
    unfolding getChangelog_tracked[OF clone vne] lg
    using fe by (simp add: s0)
  from fe run evaluated_fst[OF diffs] show ?thesis by blast
qed

text \<open>The changelog of the second module.\<close>

definition demoChangelog2 :: heap where
  "demoChangelog2 = demoHeap2 @
    [(tagged ''v1.0.0'' ''c2'' (stable 1 0 0))\<lparr>Log := map cmt [''c2'', ''c1'']\<rparr>,
     tagged ''v0.9.0'' ''c6'' (stable 0 9 0)]"

lemma demo2_valid: "\<forall>a \<in> set (Versions demoModule2). a < length demoHeap2"
  by code_simp

lemma demo2_trees:
  "\<forall>a \<in> set (Versions demoModule2).
      hasAPI demoProvider ''api'' (demoHeap2 ! a) \<or> lacksAPI demoProvider ''api'' (demoHeap2 ! a)"
  by code_simp

lemma demo2_tracked:
  "filter (\<lambda>a. hasAPI demoProvider ''api'' (demoHeap2 ! a)) (Versions demoModule2) = [0, 1]"
  by code_simp

lemma demo2_log:
  "RepoLog demoProvider (Repo demoModule2)
      \<lparr>From = Hash (Commit (demoHeap2 ! ([0, 1] ! 0))), Order = LogOrderCommitterTime\<rparr>
    = Inr (map cmt [''c2'', ''c1'', ''c0''], EOF)"
  by code_simp

lemma demo2_diffs:
  "diffsVersusNext demoProvider (map cmt [''c2'', ''c1'', ''c0'']) =
     evaluated [(cmt ''c2'', [''api/a'']), (cmt ''c1'', [''api/a'']), (cmt ''c0'', [''other/x''])]"
  by code_simp

lemma demo2_pass:
  "heap (pass ''api'' [2, 3]
      [(cmt ''c2'', [''api/a'']), (cmt ''c1'', [''api/a'']), (cmt ''c0'', [''other/x''])]
      \<lparr>heap = demoHeap2 @ map (\<lambda>a. (demoHeap2 ! a)\<lparr>Log := []\<rparr>) [0, 1],
       inScope = Map.empty, accumulators = []\<rparr>) = demoChangelog2"
  by code_simp

lemma demo2_addresses: "[length demoHeap2..<length demoHeap2 + length [0::nat, 1]] = [2, 3]"
  by code_simp

lemma demo2_run:
  "getChangelog demoProvider demoModule2 ''api'' demoHeap2 = (Inr [2, 3], demoChangelog2)"
proof -
  have clone: "cloneVersions demoProvider ''api'' (Versions demoModule2) [] demoHeap2 =
      (Inr [2, 3], demoHeap2 @ map (\<lambda>a. (demoHeap2 ! a)\<lparr>Log := []\<rparr>) [0, 1])"
    by code_simp
  have ne: "[2, 3::nat] \<noteq> []" by simp
  have lg: "RepoLog demoProvider (Repo demoModule2)
      \<lparr>From = Hash (Commit ((demoHeap2 @ map (\<lambda>a. (demoHeap2 ! a)\<lparr>Log := []\<rparr>) [0, 1])
          ! ([2, 3] ! 0))), Order = LogOrderCommitterTime\<rparr>
      = Inr (map cmt [''c2'', ''c1'', ''c0''], EOF)"
    by code_simp
  from ForEach_pass[OF demo2_diffs] lg demo2_pass show ?thesis
    unfolding getChangelog_tracked[OF clone ne] by simp
qed

theorem changelog_runs_over_log_from_first_version_witness:
  "getChangelog demoProvider demoModule2 ''api'' demoHeap2 = (Inr [2, 3], demoChangelog2) \<and>
   map fst [(cmt ''c2'', [''api/a'']), (cmt ''c1'', [''api/a'']), (cmt ''c0'', [''other/x''])]
     = map cmt [''c2'', ''c1'', ''c0'']"
proof -
  have ne: "filter (\<lambda>a. hasAPI demoProvider ''api'' (demoHeap2 ! a)) (Versions demoModule2) \<noteq> []"
    unfolding demo2_tracked by simp
  from changelog_runs_over_log_from_first_version[OF demo2_valid demo2_trees ne
      demo2_log[folded demo2_tracked] demo2_diffs]
  show ?thesis
    unfolding demo2_tracked demo2_addresses demo2_pass by blast
qed

text \<open>
  C6, as stated, fails. In the small repository a repository is its complete history, and
  \<^verbatim>\<open>repo.Log\<close> from a commit is the part of it from that commit on. The complete history
  begins at \<open>c6\<close>, where \<open>v0.9.0\<close> is tagged; the first version of the second module is
  \<open>v1.0.0\<close>, tagged at \<open>c2\<close>, so getChangelog reads the three commits from \<open>c2\<close> on and
  leaves \<open>v0.9.0\<close> with the empty list, where the iterator over the complete history would
  give it three commits.
\<close>

theorem changelog_does_not_read_full_history:
  "Repo demoModule2 = demoHistory \<and>
   RepoLog demoProvider demoHistory \<lparr>From = ''c6'', Order = LogOrderCommitterTime\<rparr>
     = Inr (demoHistory, EOF) \<and>
   RepoLog demoProvider (Repo demoModule2)
      \<lparr>From = Hash (Commit (demoHeap2 ! 0)), Order = LogOrderCommitterTime\<rparr>
     = Inr (map cmt [''c2'', ''c1'', ''c0''], EOF) \<and>
   getChangelog demoProvider demoModule2 ''api'' demoHeap2 = (Inr [2, 3], demoChangelog2) \<and>
   Log (demoChangelog2 ! 3) = [] \<and>
   map Log (drop 2 (heap (snd (outcome (ForEach demoProvider (changelogFilter ''api'' [2, 3])
       (changelogCallback [2, 3]) (NewCommitPathIterFromIter (demoHistory, EOF))
       \<lparr>heap = demoHeap2 @ map (\<lambda>a. (demoHeap2 ! a)\<lparr>Log := []\<rparr>) [0, 1],
        inScope = Map.empty, accumulators = []\<rparr>)))))
     = [map cmt [''c2'', ''c1''], map cmt [''c6'', ''c5'', ''c3'']]"
proof -
  let ?s0 = "\<lparr>heap = demoHeap2 @ map (\<lambda>a. (demoHeap2 ! a)\<lparr>Log := []\<rparr>) [0, 1],
      inScope = Map.empty, accumulators = []\<rparr>"
  have full: "outcome (ForEach demoProvider (changelogFilter ''api'' [2, 3])
       (changelogCallback [2, 3]) (NewCommitPathIterFromIter (demoHistory, EOF)) ?s0)
       = (None, pass ''api'' [2, 3] demoChanges ?s0)"
    using demo_diffs by (rule ForEach_pass)
  have "map Log (drop 2 (heap (pass ''api'' [2, 3] demoChanges ?s0)))
      = [map cmt [''c2'', ''c1''], map cmt [''c6'', ''c5'', ''c3'']]"
    by code_simp
  with full have a: "map Log (drop 2 (heap (snd (outcome (ForEach demoProvider
       (changelogFilter ''api'' [2, 3]) (changelogCallback [2, 3])
       (NewCommitPathIterFromIter (demoHistory, EOF)) ?s0)))))
     = [map cmt [''c2'', ''c1''], map cmt [''c6'', ''c5'', ''c3'']]"
    by simp
  have b: "Repo demoModule2 = demoHistory \<and>
   RepoLog demoProvider demoHistory \<lparr>From = ''c6'', Order = LogOrderCommitterTime\<rparr>
     = Inr (demoHistory, EOF) \<and>
   RepoLog demoProvider (Repo demoModule2)
      \<lparr>From = Hash (Commit (demoHeap2 ! 0)), Order = LogOrderCommitterTime\<rparr>
     = Inr (map cmt [''c2'', ''c1'', ''c0''], EOF) \<and>
   Log (demoChangelog2 ! 3) = []"
    by code_simp
  from demo2_run a b show ?thesis
    by blast
qed

section \<open>Running getChangelog again\<close>

text \<open>
  A state of the pass whose versions live after the heap \<open>pre\<close>: the same state with every
  address moved by the length of \<open>pre\<close>.
\<close>

definition lift :: "heap \<Rightarrow> changelogState \<Rightarrow> changelogState" where
  "lift pre s =
    \<lparr>heap = pre @ heap s, inScope = inScope s,
     accumulators = map ((+) (length pre)) (accumulators s)\<rparr>"

lemma lift_VersionsAtCommit:
  "VersionsAtCommit (pre @ cl) ident (map ((+) (length pre)) js) =
     map ((+) (length pre)) (VersionsAtCommit cl ident js)"
  by (induction js) simp_all

lemma lift_closes:
  "closes (pre @ cl) (map ((+) (length pre)) fs) (length pre + e) = closes cl fs e"
  by (induction fs) simp_all

lemma lift_DeleteFunc:
  "DeleteFunc (map ((+) (length pre)) xs) (closes (pre @ cl) (map ((+) (length pre)) fs)) =
     map ((+) (length pre)) (DeleteFunc xs (closes cl fs))"
  by (induction xs) (simp_all add: lift_closes)

lemma lift_appendLog:
  "appendLog c (map ((+) (length pre)) accs) (pre @ cl) = pre @ appendLog c accs cl"
  by (induction accs arbitrary: cl) (simp_all add: list_update_append)

lemma lift_changelogFilter:
  "changelogFilter api (map ((+) (length pre)) js) c names (lift pre s) =
     map_prod id (lift pre) (changelogFilter api js c names s)"
  by (simp add: changelogFilter_def lift_def Let_def lift_VersionsAtCommit)

lemma lift_changelogCallback:
  "changelogCallback (map ((+) (length pre)) js) c (lift pre s) =
     map_prod id (lift pre) (changelogCallback js c s)"
  by (simp add: changelogCallback_def lift_def Let_def lift_VersionsAtCommit lift_DeleteFunc
      lift_appendLog inScopeAt_def flip: map_append)

lemma lift_step:
  fixes pre :: heap and js :: "addr list"
  defines "js' \<equiv> map ((+) (length pre)) js"
  assumes f: "changelogFilter api js cur names s = (b, s1)"
    and cb: "changelogCallback js cur s1 = (r, s2)"
  shows "changelogFilter api js' cur names (lift pre s) = (b, lift pre s1)"
    and "changelogCallback js' cur (lift pre s1) = (r, lift pre s2)"
  using f cb unfolding js'_def
  by (simp_all add: lift_changelogFilter lift_changelogCallback)

lemma lift_scoped_run:
  "scoped_run p (changelogFilter api (map ((+) (length pre)) js))
       (changelogCallback (map ((+) (length pre)) js)) cur cs e (lift pre s) =
     map_prod id (lift pre)
       (scoped_run p (changelogFilter api js) (changelogCallback js) cur cs e s)"
proof (induction cs arbitrary: cur s)
  case Nil
  show ?case
  proof (cases "changedPaths p cur None")
    case (Inl err)
    then show ?thesis by simp
  next
    case (Inr names)
    obtain b s1 where f: "changelogFilter api js cur names s = (b, s1)"
      by (cases "changelogFilter api js cur names s")
    obtain r s2 where cb: "changelogCallback js cur s1 = (r, s2)"
      by (cases "changelogCallback js cur s1")
    from Inr f cb lift_step[OF f cb, of pre] show ?thesis
      by (cases r) simp_all
  qed
next
  case (Cons d ds)
  show ?case
  proof (cases "changedPaths p cur (Some d)")
    case (Inl err)
    then show ?thesis by simp
  next
    case (Inr names)
    obtain b s1 where f: "changelogFilter api js cur names s = (b, s1)"
      by (cases "changelogFilter api js cur names s")
    obtain r s2 where cb: "changelogCallback js cur s1 = (r, s2)"
      by (cases "changelogCallback js cur s1")
    from Inr f cb lift_step[OF f cb, of pre] Cons.IH show ?thesis
      by (cases r) simp_all
  qed
qed

lemma lift_scoped_run_all:
  "scoped_run_all p (changelogFilter api (map ((+) (length pre)) js))
       (changelogCallback (map ((+) (length pre)) js)) src (lift pre s) =
     map_prod id (lift pre)
       (scoped_run_all p (changelogFilter api js) (changelogCallback js) src s)"
  by (cases src; cases "fst src") (simp_all add: scoped_run_all_def lift_scoped_run)

text \<open>
  The copies the first loop of getChangelog makes, as a function of the values of the
  module's versions, with the error that stops it if any; and the whole of getChangelog as a
  function of those values: the addresses of the result counted from the end of the heap it
  started on, and the versions it appends to that heap.
\<close>

fun cloneValues ::
  "('r, 't) provider \<Rightarrow> string \<Rightarrow> ModuleVersion list \<Rightarrow> error option \<times> ModuleVersion list" where
  "cloneValues p api [] = (None, [])"
| "cloneValues p api (m # ms) =
    (case CommitTree p (Commit m) of
       Inl err \<Rightarrow> (Some (Wrapped ''get commit tree'' err), [])
     | Inr tree \<Rightarrow>
        (case TreeTree p tree api of
           Inl err \<Rightarrow>
             if errors_Is err ErrDirectoryNotFound then cloneValues p api ms
             else (Some (Wrapped ''failed to list files'' err), [])
         | Inr sub \<Rightarrow>
            (case cloneValues p api ms of (e, cl) \<Rightarrow> (e, m\<lparr>Log := []\<rparr> # cl))))"

definition changelogValues ::
  "('r, 't) provider \<Rightarrow> 'r \<Rightarrow> string \<Rightarrow> ModuleVersion list
     \<Rightarrow> (error + nat list) \<times> ModuleVersion list" where
  "changelogValues p repo api ms =
    (case cloneValues p api ms of
       (Some err, cl) \<Rightarrow> (Inl err, cl)
     | (None, cl) \<Rightarrow>
        if cl = [] then (Inr [], [])
        else
         (case RepoLog p repo \<lparr>From = Hash (Commit (cl ! 0)), Order = LogOrderCommitterTime\<rparr> of
            Inl err \<Rightarrow> (Inl (Wrapped ''get git log'' err), cl)
          | Inr lg \<Rightarrow>
             (case scoped_run_all p (changelogFilter api [0..<length cl])
                     (changelogCallback [0..<length cl]) lg
                     \<lparr>heap = cl, inScope = Map.empty, accumulators = []\<rparr> of
                (Some err, s) \<Rightarrow> (Inl (Wrapped ''read git log'' err), heap s)
              | (None, s) \<Rightarrow> (Inr [0..<length cl], heap s))))"

definition relocate :: "heap \<Rightarrow> (error + nat list) \<times> ModuleVersion list \<Rightarrow> (error + addr list) \<times> heap" where
  "relocate h res = (map_sum id (map ((+) (length h))) (fst res), h @ snd res)"

lemma cloneVersions_values:
  assumes "\<forall>a \<in> set as. a < length h"
  shows "cloneVersions p api as vs0 h =
    (case cloneValues p api (map ((!) h) as) of
       (None, cl) \<Rightarrow> (Inr (vs0 @ [length h..<length h + length cl]), h @ cl)
     | (Some err, cl) \<Rightarrow> (Inl err, h @ cl))"
  using assms
proof (induction as arbitrary: vs0 h)
  case Nil
  show ?case by simp
next
  case (Cons a as)
  let ?m = "(h ! a)\<lparr>Log := []\<rparr>"
  from Cons.prems have v: "\<forall>b \<in> set as. b < length h" by simp
  then have v': "\<forall>b \<in> set as. b < length (h @ [?m])" by auto
  have same: "map ((!) (h @ [?m])) as = map ((!) h) as"
    using v by (intro map_cong) (simp_all add: nth_append)
  note IH1 = Cons.IH[OF v, of vs0]
  note IH2 = Cons.IH[OF v', of "vs0 @ [length h]", unfolded same]
  show ?case
  proof (cases "CommitTree p (Commit (h ! a))")
    case (Inl err)
    then show ?thesis by simp
  next
    case (Inr tree)
    show ?thesis
    proof (cases "TreeTree p tree api")
      case (Inl err)
      with Inr IH1 show ?thesis by simp
    next
      case sub: (Inr sub)
      obtain e cl where cv: "cloneValues p api (map ((!) h) as) = (e, cl)"
        by (cases "cloneValues p api (map ((!) h) as)")
      have up: "[length h..<length h + length (?m # cl)] =
          length h # [length (h @ [?m])..<length (h @ [?m]) + length cl]"
        by (simp add: upt_conv_Cons del: upt_Suc)
      from Inr sub cv IH2 show ?thesis
        by (cases e) (simp_all add: upt_conv_Cons del: upt_Suc)
    qed
  qed
qed

lemma upt_shift: "[n..<n + k] = map ((+) n) [0..<k]"
  by (induction k) simp_all

lemma getChangelog_values:
  assumes valid: "\<forall>a \<in> set (Versions m). a < length h"
  shows "getChangelog p m api h =
           relocate h (changelogValues p (Repo m) api (map ((!) h) (Versions m)))"
proof -
  obtain e cl where cv: "cloneValues p api (map ((!) h) (Versions m)) = (e, cl)"
    by (cases "cloneValues p api (map ((!) h) (Versions m))")
  note clone = cloneVersions_values[OF valid, of p api "[]", unfolded cv]
  show ?thesis
  proof (cases e)
    case (Some err)
    with cv have "Versions m \<noteq> []" by (cases "Versions m") auto
    with Some cv clone show ?thesis
      by (simp add: getChangelog_def changelogValues_def relocate_def)
  next
    case None
    show ?thesis
    proof (cases "cl = []")
      case True
      with None cv clone show ?thesis
        by (simp add: getChangelog_def changelogValues_def relocate_def)
    next
      case False
      let ?vs = "[length h..<length h + length cl]"
      let ?js = "[0..<length cl]"
      let ?s0 = "\<lparr>heap = cl, inScope = Map.empty, accumulators = []\<rparr>"
      from None clone have c: "cloneVersions p api (Versions m) [] h = (Inr ?vs, h @ cl)"
        by simp
      from False have ne: "?vs \<noteq> []" by simp
      have vs: "?vs = map ((+) (length h)) ?js" by (rule upt_shift)
      from False have "?vs ! 0 = length h"
        by (subst nth_upt) simp_all
      then have first: "(h @ cl) ! (?vs ! 0) = cl ! 0"
        by (simp add: nth_append)
      have s0: "\<lparr>heap = h @ cl, inScope = Map.empty, accumulators = []\<rparr> = lift h ?s0"
        by (simp add: lift_def)
      have run: "outcome (ForEach p (changelogFilter api ?vs) (changelogCallback ?vs)
            (NewCommitPathIterFromIter lg) \<lparr>heap = h @ cl, inScope = Map.empty, accumulators = []\<rparr>)
          = map_prod id (lift h)
              (scoped_run_all p (changelogFilter api ?js) (changelogCallback ?js) lg ?s0)" for lg
        unfolding ForEach_refines s0 vs by (rule lift_scoped_run_all)
      show ?thesis
      proof (cases "RepoLog p (Repo m)
          \<lparr>From = Hash (Commit (cl ! 0)), Order = LogOrderCommitterTime\<rparr>")
        case (Inl err)
        with None False cv show ?thesis
          unfolding getChangelog_tracked[OF c ne] first
          by (simp add: changelogValues_def relocate_def)
      next
        case (Inr lg)
        obtain r s where sr: "scoped_run_all p (changelogFilter api ?js) (changelogCallback ?js)
            lg ?s0 = (r, s)"
          by (cases "scoped_run_all p (changelogFilter api ?js) (changelogCallback ?js) lg ?s0")
        from Inr None False cv sr show ?thesis
          unfolding getChangelog_tracked[OF c ne] first run
          by (cases r) (simp_all add: changelogValues_def relocate_def lift_def upt_shift[symmetric] del: upt_Suc)
      qed
    qed
  qed
qed

text \<open>
  C7. Two runs of getChangelog in a row, on the same module and provider: the second returns
  the same error, or versions with the same values in the same order (tag, commit, version
  and commit list), as the first; the first leaves every version that was in the heap as it
  was (the module's own versions among them), and the second leaves the result of the first
  as it was.
\<close>

theorem getChangelog_idempotent:
  assumes valid: "\<forall>a \<in> set (Versions m). a < length h"
    and run1: "getChangelog p m api h = (r1, h1)"
    and run2: "getChangelog p m api h1 = (r2, h2)"
  shows "map_sum id (map ((!) h1)) r1 = map_sum id (map ((!) h2)) r2 \<and>
         (\<forall>a < length h. h1 ! a = h ! a) \<and>
         (\<forall>a < length h1. h2 ! a = h1 ! a)"
proof -
  obtain r new where cv: "changelogValues p (Repo m) api (map ((!) h) (Versions m)) = (r, new)"
    by (cases "changelogValues p (Repo m) api (map ((!) h) (Versions m))")
  from run1 have 1: "r1 = map_sum id (map ((+) (length h))) r" "h1 = h @ new"
    unfolding getChangelog_values[OF valid] cv relocate_def by simp_all
  from valid 1 have valid1: "\<forall>a \<in> set (Versions m). a < length h1" by auto
  have eq: "map ((!) h1) (Versions m) = map ((!) h) (Versions m)"
    using valid 1 by (intro map_cong) (simp_all add: nth_append)
  have cv1: "changelogValues p (Repo m) api (map ((!) h1) (Versions m)) = (r, new)"
    unfolding eq by (rule cv)
  from run2 have 2: "r2 = map_sum id (map ((+) (length h1))) r" "h2 = h1 @ new"
    unfolding getChangelog_values[OF valid1] cv1 relocate_def by simp_all
  have v1: "map ((!) h1) (map ((+) (length h)) js) = map ((!) new) js" for js
    unfolding 1 by simp
  have v2: "map ((!) h2) (map ((+) (length h1)) js) = map ((!) new) js" for js
    unfolding 2(2) by simp
  have same: "map_sum id (map ((!) h1)) r1 = map_sum id (map ((!) h2)) r2"
    unfolding 1(1) 2(1) using v1 v2 by (cases r) simp_all
  have old1: "h1 ! a = h ! a" if "a < length h" for a
    using that unfolding 1 by (simp add: nth_append)
  have old2: "h2 ! a = h1 ! a" if "a < length h1" for a
    using that unfolding 2 by (simp add: nth_append)
  from same old1 old2 show ?thesis by blast
qed

lemma demo_valid: "\<forall>a \<in> set (Versions demoModule). a < length demoHeap"
  by code_simp

lemma demo_rerun:
  "getChangelog demoProvider demoModule ''api'' demoChangelog =
     (Inr [7, 8, 9], demoChangelog @ drop 4 demoChangelog)"
proof -
  let ?h1 = "demoChangelog @ map (\<lambda>a. (demoHeap ! a)\<lparr>Log := []\<rparr>) [0, 1, 2]"
  let ?s0 = "\<lparr>heap = ?h1, inScope = Map.empty, accumulators = []\<rparr>"
  have clone: "cloneVersions demoProvider ''api'' (Versions demoModule) [] demoChangelog =
      (Inr [7, 8, 9], ?h1)"
    by code_simp
  have ne: "[7, 8, 9::nat] \<noteq> []" by simp
  have lg: "RepoLog demoProvider (Repo demoModule)
      \<lparr>From = Hash (Commit (?h1 ! ([7, 8, 9] ! 0))), Order = LogOrderCommitterTime\<rparr>
      = Inr (demoHistory, EOF)"
    by code_simp
  have pass: "heap (pass ''api'' [7, 8, 9] demoChanges ?s0) = demoChangelog @ drop 4 demoChangelog"
    by code_simp
  from ForEach_pass[OF demo_diffs] lg pass show ?thesis
    unfolding getChangelog_tracked[OF clone ne] by simp
qed

theorem getChangelog_idempotent_witness:
  "getChangelog demoProvider demoModule ''api'' demoHeap = (Inr [4, 5, 6], demoChangelog) \<and>
   getChangelog demoProvider demoModule ''api'' demoChangelog =
     (Inr [7, 8, 9], demoChangelog @ drop 4 demoChangelog) \<and>
   map ((!) demoChangelog) [4, 5, 6] = map ((!) (demoChangelog @ drop 4 demoChangelog)) [7, 8, 9] \<and>
   map Log (map ((!) demoChangelog) [4, 5, 6]) =
     [map cmt [''c6'', ''c5'', ''c3''], map cmt [''c5'', ''c3''], map cmt [''c2'', ''c1'']] \<and>
   demoChangelog ! 0 = demoHeap ! 0 \<and>
   (demoChangelog @ drop 4 demoChangelog) ! 4 = demoChangelog ! 4"
proof -
  have l: "map Log (map ((!) demoChangelog) [4, 5, 6]) =
     [map cmt [''c6'', ''c5'', ''c3''], map cmt [''c5'', ''c3''], map cmt [''c2'', ''c1'']]"
    by code_simp
  have b: "(0::nat) < length demoHeap" "(4::nat) < length demoChangelog"
    by code_simp+
  from getChangelog_idempotent[OF demo_valid demo_run demo_rerun] b
  have "map ((!) demoChangelog) [4, 5, 6] = map ((!) (demoChangelog @ drop 4 demoChangelog)) [7, 8, 9]"
    and "demoChangelog ! 0 = demoHeap ! 0"
    and "(demoChangelog @ drop 4 demoChangelog) ! 4 = demoChangelog ! 4"
    by simp_all
  with demo_run demo_rerun l show ?thesis by blast
qed

end
